theory Spec2Isabelle
  imports Main
begin

section \<open>Data model\<close>

text \<open>
  The batch processor of the extension (class \<open>BatchProcessor\<close>), the model selection of
  \<open>LLMProvider\<close> and the \<open>batch_process_files\<close> handler of \<open>MCPServer\<close>, embedded as
  functions over explicit state. A \<open>vscode.Uri\<close> is represented by its \<open>fsPath\<close>.
\<close>

datatype Uri = Uri (fsPath: string)

record Task =
  label :: "string option"
  command :: string
  aiPrompt :: "string option"

record Prompt =
  name :: string
  content :: string

text \<open>
  \<open>process\<close> receives the tag \<open>type\<close> and the \<open>item\<close> separately and casts the item
  according to the tag; every caller passes a matching pair, which the datatype records.
\<close>

datatype Operation = TaskOp Task | PromptOp Prompt

text \<open>The request sent to the provider; the constant \<open>temperature: 0.7\<close> is left out.\<close>

record LLMRequest =
  prompt :: string
  model :: string
  maxTokens :: nat

record LLMResponse =
  responseContent :: string
  responseModel :: "string option"
  usageTotalTokens :: "nat option"

record ProcessingResult =
  uri :: Uri
  success :: bool
  response :: "string option"
  error :: "string option"
  resultModel :: "string option"
  tokens :: "nat option"

record BatchResult =
  results :: "ProcessingResult list"
  totalProcessed :: nat
  totalSuccessful :: nat
  totalFailed :: nat
  totalTokens :: nat
  duration :: int

text \<open>
  A thrown value is an \<open>Error\<close> instance with its message, or some other value with
  the string it converts to (the \<open>instanceof Error\<close> tests of the source tell them apart).
\<close>

datatype thrown = Error string | NonError string

datatype 'a PromiseSettledResult = Fulfilled 'a | Rejected thrown

text \<open>How a call ends: it returns, it throws, or it never comes back.\<close>

datatype 'a Completion = Returned 'a | Threw thrown | Diverged

record CancellationTokenSource =
  isCancellationRequested :: bool

record BatchProcessor =
  isProcessing :: bool
  cancellationToken :: "CancellationTokenSource option"

text \<open>
  The effects of a run on its collaborators, logged in the order they happen: reading a
  target, a request to the backend, a write of a result document, the pacing delay, the
  final report, and the execution of the \<open>finally\<close> block of \<open>process\<close>.
\<close>

datatype Event =
    ReadTarget Uri
  | BackendRequest LLMRequest
  | SinkWrite Uri string
  | PacingDelay nat
  | ShowResults
  | Released

text \<open>
  What other code may call on the same engine while a run is suspended at an
  \<open>await\<close>.
\<close>

datatype ExternalCall = CallCancel | CallProcess | CallIsCurrentlyProcessing

datatype FsNode = FileNode string | DirectoryNode "(string \<times> bool) list"

datatype Provider = VSCodeLM | Ollama

text \<open>
  The collaborators of a run. \<open>availableModels\<close> is what \<open>getAvailableModels()\<close>
  resolves to, \<open>showQuickPick\<close> the user's choice among several models, \<open>fsNode\<close> the file
  system (\<open>Inl\<close> the text of the error it raises), \<open>backend\<close> the transport of the
  provider (\<open>Inl\<close> the text of its failure), \<open>latency\<close> the time an item's promise takes
  to settle, \<open>during k\<close> the calls other code makes on the engine at the \<open>k\<close>-th
  suspension of the run (\<open>0\<close>: model selection; \<open>i + 1\<close>: batch \<open>i\<close> in flight and the
  delay following it), \<open>showResultsError\<close> the failure of the final report if it fails, and the
  two readings of the clock.
\<close>

record Env =
  availableModels :: "string list"
  showQuickPick :: "string list \<Rightarrow> string option"
  fsNode :: "Uri \<Rightarrow> string + FsNode"
  provider :: Provider
  backend :: "LLMRequest \<Rightarrow> string + LLMResponse"
  workspaceFolder :: "string option"
  latency :: "Uri \<Rightarrow> nat"
  during :: "nat \<Rightarrow> ExternalCall list"
  showResultsError :: "thrown option"
  startTime :: int
  endTime :: int

section \<open>Partitioning into batches\<close>

text \<open>\<open>Array.prototype.slice\<close> for indices \<open>0 \<le> start \<le> end\<close>; both are clamped to the length.\<close>

definition slice :: "'a list \<Rightarrow> nat \<Rightarrow> nat \<Rightarrow> 'a list" where
  "slice xs start end = take (end - start) (drop start xs)"

text \<open>
  The loop of \<open>createBatches\<close>. With \<open>batchSize = 0\<close> and a non-empty list the index never
  advances and the loop does not end: the function is partial, and \<open>None\<close> is not returning.
\<close>

partial_function (option) createBatches_loop ::
  "'a list \<Rightarrow> nat \<Rightarrow> nat \<Rightarrow> 'a list list \<Rightarrow> 'a list list option" where
  "createBatches_loop items batchSize i batches =
     (if i < length items
      then createBatches_loop items batchSize (i + batchSize)
             (batches @ [slice items i (i + batchSize)])
      else Some batches)"

declare createBatches_loop.simps [code]

definition createBatches :: "'a list \<Rightarrow> nat \<Rightarrow> 'a list list option" where
  "createBatches items batchSize = createBatches_loop items batchSize 0 []"

text \<open>\<open>ceil(n / b)\<close> on natural numbers, and the \<open>k\<close>-th block of \<open>b\<close> consecutive items.\<close>

definition ceilDiv :: "nat \<Rightarrow> nat \<Rightarrow> nat" where
  "ceilDiv n b = (n + b - 1) div b"

definition batchAt :: "'a list \<Rightarrow> nat \<Rightarrow> nat \<Rightarrow> 'a list" where
  "batchAt items b k = take b (drop (k * b) items)"

section \<open>Building the prompt\<close>

text \<open>
  \<open>String.prototype.replace\<close> with a replacement string expands the patterns of
  \<open>GetSubstitution\<close> in it: \<open>$$\<close> is a dollar sign, \<open>$&\<close> the matched text, \<open>$`\<close> the text
  preceding the match and \<open>$'\<close> the text following it. The regular expressions of \<open>buildPrompt\<close>
  have no capture groups, so \<open>$1\<close> and \<open>$<name>\<close> stand for themselves.
\<close>

fun getSubstitution :: "string \<Rightarrow> string \<Rightarrow> string \<Rightarrow> string \<Rightarrow> string" where
  "getSubstitution matched preceding following [] = []"
| "getSubstitution matched preceding following [c] = [c]"
| "getSubstitution matched preceding following (c # d # rest) =
     (if c = CHR ''$'' \<and> d = CHR ''$'' then CHR ''$'' # getSubstitution matched preceding following rest
      else if c = CHR ''$'' \<and> d = CHR ''&'' then matched @ getSubstitution matched preceding following rest
      else if c = CHR ''$'' \<and> d = CHR 0x60 then preceding @ getSubstitution matched preceding following rest
      else if c = CHR ''$'' \<and> d = CHR 0x27 then following @ getSubstitution matched preceding following rest
      else c # getSubstitution matched preceding following (d # rest))"

text \<open>
  \<open>s.replace(/pat/g, rep)\<close> for a regular expression that matches the literal text \<open>pat\<close>
  (not empty): the matches are found from left to right in \<open>s\<close>, \<open>preceding\<close> is the part of
  \<open>s\<close> already passed.
\<close>

function replaceGlobal :: "string \<Rightarrow> string \<Rightarrow> string \<Rightarrow> string \<Rightarrow> string" where
  "replaceGlobal pat rep preceding [] = []"
| "replaceGlobal pat rep preceding (c # cs) =
     (if pat \<noteq> [] \<and> take (length pat) (c # cs) = pat
      then getSubstitution pat preceding (drop (length pat) (c # cs)) rep
             @ replaceGlobal pat rep (preceding @ pat) (drop (length pat) (c # cs))
      else c # replaceGlobal pat rep (preceding @ [c]) cs)"
  by pat_completeness auto
termination
  by (relation "measure (\<lambda>(pat, rep, preceding, s). length s)") (auto simp: neq_Nil_conv)

definition replaceAll :: "string \<Rightarrow> string \<Rightarrow> string \<Rightarrow> string" where
  "replaceAll pat rep s = replaceGlobal pat rep [] s"

text \<open>\<open>path.basename\<close> on a POSIX path: trailing slashes are dropped, the last segment is kept.\<close>

definition basename :: "string \<Rightarrow> string" where
  "basename p =
     rev (takeWhile (\<lambda>c. c \<noteq> CHR ''/'') (dropWhile (\<lambda>c. c = CHR ''/'') (rev p)))"

definition defaultTemplate :: "Task \<Rightarrow> string \<Rightarrow> string" where
  "defaultTemplate task fileContent =
     ''Execute task: '' @ command task @ [CHR 0x0A, CHR 0x0A] @ ''File content:'' @ [CHR 0x0A]
       @ fileContent"

definition promptTemplate :: "Operation \<Rightarrow> string \<Rightarrow> string" where
  "promptTemplate op fileContent =
     (case op of
        TaskOp task \<Rightarrow>
          (case aiPrompt task of
             None \<Rightarrow> defaultTemplate task fileContent
           | Some p \<Rightarrow> if p = [] then defaultTemplate task fileContent else p)
      | PromptOp pr \<Rightarrow> content pr)"

definition buildPrompt :: "string option \<Rightarrow> Uri \<Rightarrow> string \<Rightarrow> Operation \<Rightarrow> string" where
  "buildPrompt workspace target fileContent op =
     replaceAll ''{{WORKSPACE_PATH}}'' (case workspace of None \<Rightarrow> [] | Some w \<Rightarrow> w)
       (replaceAll ''{{FILE_NAME}}'' (basename (fsPath target))
         (replaceAll ''{{FILE_PATH}}'' (fsPath target)
           (replaceAll ''{{FILE_CONTENT}}'' fileContent (promptTemplate op fileContent))))"

section \<open>Processing one item\<close>

fun joinLines :: "string list \<Rightarrow> string" where
  "joinLines [] = []"
| "joinLines [l] = l"
| "joinLines (l # m # ls) = l @ [CHR 0x0A] @ joinLines (m # ls)"

definition directoryListing :: "(string \<times> bool) list \<Rightarrow> string" where
  "directoryListing entries =
     joinLines (map (\<lambda>(entry, isDirectory).
       (if isDirectory then ''[DIR]'' else ''[FILE]'') @ '' '' @ entry) entries)"

definition getFileContent :: "Env \<Rightarrow> Uri \<Rightarrow> thrown + string" where
  "getFileContent env target =
     (case fsNode env target of
        Inl e \<Rightarrow> Inl (Error (''Failed to read '' @ fsPath target @ '': '' @ e))
      | Inr (DirectoryNode entries) \<Rightarrow>
          Inr (''Directory: '' @ fsPath target @ [CHR 0x0A] @ ''Contents:'' @ [CHR 0x0A]
                 @ directoryListing entries)
      | Inr (FileNode text) \<Rightarrow> Inr text)"

text \<open>
  \<open>LLMProvider.sendRequest\<close>: both transports catch whatever goes wrong and throw a new
  \<open>Error\<close> whose message carries the text of the failure.
\<close>

definition sendRequest :: "Env \<Rightarrow> LLMRequest \<Rightarrow> thrown + LLMResponse" where
  "sendRequest env request =
     (case backend env request of
        Inl e \<Rightarrow>
          Inl (Error ((case provider env of
                         VSCodeLM \<Rightarrow> ''VSCode LM error: ''
                       | Ollama \<Rightarrow> ''Ollama error: '') @ e))
      | Inr r \<Rightarrow> Inr r)"

text \<open>
  \<open>saveResult\<close> writes one document when a workspace folder is open, and swallows every
  failure of the write.
\<close>

definition saveResult :: "Env \<Rightarrow> Uri \<Rightarrow> string \<Rightarrow> Event list" where
  "saveResult env target result =
     (case workspaceFolder env of None \<Rightarrow> [] | Some folder \<Rightarrow> [SinkWrite target result])"

text \<open>The \<open>try\<close> block of \<open>processItem\<close>, with the effects it had.\<close>

definition processItem_try ::
  "Env \<Rightarrow> Uri \<Rightarrow> Operation \<Rightarrow> string \<Rightarrow> (thrown + ProcessingResult) \<times> Event list" where
  "processItem_try env target op selectedModel =
     (case getFileContent env target of
        Inl e \<Rightarrow> (Inl e, [ReadTarget target])
      | Inr fileContent \<Rightarrow>
          (let request = \<lparr>prompt = buildPrompt (workspaceFolder env) target fileContent op,
                          model = selectedModel, maxTokens = 4000\<rparr>
           in case sendRequest env request of
                Inl e \<Rightarrow> (Inl e, [ReadTarget target, BackendRequest request])
              | Inr r \<Rightarrow>
                  (Inr \<lparr>uri = target, success = True, response = Some (responseContent r),
                        error = None, resultModel = responseModel r,
                        tokens = usageTotalTokens r\<rparr>,
                   [ReadTarget target, BackendRequest request]
                     @ saveResult env target (responseContent r))))"

text \<open>\<open>processItem\<close>: how its promise settles, and the effects.\<close>

definition processItem ::
  "Env \<Rightarrow> Uri \<Rightarrow> Operation \<Rightarrow> string \<Rightarrow> ProcessingResult PromiseSettledResult \<times> Event list" where
  "processItem env target op selectedModel =
     (case processItem_try env target op selectedModel of
        (Inr r, evs) \<Rightarrow> (Fulfilled r, evs)
      | (Inl e, evs) \<Rightarrow>
          (Fulfilled \<lparr>uri = target, success = False, response = None,
                      error = Some (case e of Error m \<Rightarrow> m | NonError v \<Rightarrow> ''Unknown error''),
                      resultModel = None, tokens = None\<rparr>, evs))"

section \<open>The engine\<close>

text \<open>
  The promises of a batch settle in the order of their latencies. \<open>Promise.allSettled\<close>
  stores each outcome at the index of its promise as it settles and resolves to the array
  once every slot is filled.
\<close>

definition completionOrder :: "Env \<Rightarrow> Uri list \<Rightarrow> nat list" where
  "completionOrder env batch = sort_key (\<lambda>i. latency env (batch ! i)) [0..<length batch]"

definition allSettled :: "nat list \<Rightarrow> 'a list \<Rightarrow> 'a list" where
  "allSettled order settled =
     map the (fold (\<lambda>i slots. slots[i := Some (settled ! i)]) order
                (replicate (length settled) None))"

definition claim :: "BatchProcessor \<Rightarrow> thrown + BatchProcessor" where
  "claim this =
     (if isProcessing this then Inl (Error ''Another batch operation is already in progress'')
      else Inr (this\<lparr>isProcessing := True,
                     cancellationToken := Some \<lparr>isCancellationRequested = False\<rparr>\<rparr>))"

definition cancel :: "BatchProcessor \<Rightarrow> BatchProcessor" where
  "cancel this =
     (case cancellationToken this of
        None \<Rightarrow> this
      | Some t \<Rightarrow> this\<lparr>cancellationToken := Some (t\<lparr>isCancellationRequested := True\<rparr>)\<rparr>)"

definition isCurrentlyProcessing :: "BatchProcessor \<Rightarrow> bool" where
  "isCurrentlyProcessing this = isProcessing this"

text \<open>\<open>this.cancellationToken?.token.isCancellationRequested\<close>\<close>

definition cancellationRequested :: "BatchProcessor \<Rightarrow> bool" where
  "cancellationRequested this =
     (case cancellationToken this of None \<Rightarrow> False | Some t \<Rightarrow> isCancellationRequested t)"

text \<open>
  A call made by other code while the run is suspended. Of a call of \<open>process\<close> only the
  part up to its first \<open>await\<close> runs at once: it throws on an active engine, and claims an
  idle one.
\<close>

fun externalCall :: "ExternalCall \<Rightarrow> BatchProcessor \<Rightarrow> BatchProcessor" where
  "externalCall CallCancel this = cancel this"
| "externalCall CallProcess this = (case claim this of Inl e \<Rightarrow> this | Inr claimed \<Rightarrow> claimed)"
| "externalCall CallIsCurrentlyProcessing this = this"

definition externalCalls :: "ExternalCall list \<Rightarrow> BatchProcessor \<Rightarrow> BatchProcessor" where
  "externalCalls calls this = fold externalCall calls this"

text \<open>The engine and the local variables of \<open>process\<close>, with the effects so far.\<close>

record RunState =
  processor :: BatchProcessor
  effects :: "Event list"
  resultsAcc :: "ProcessingResult list"
  totalTokensAcc :: nat
  processedCount :: nat

text \<open>The inner loop over \<open>batchResults\<close>.\<close>

fun recordResults ::
  "Uri list \<Rightarrow> ProcessingResult PromiseSettledResult list \<Rightarrow> nat \<Rightarrow> RunState \<Rightarrow> RunState" where
  "recordResults batch [] i st = st"
| "recordResults batch (Fulfilled v # rest) i st =
     recordResults batch rest (Suc i)
       (st\<lparr>resultsAcc := resultsAcc st @ [v],
           totalTokensAcc := totalTokensAcc st + (case tokens v of None \<Rightarrow> 0 | Some t \<Rightarrow> t),
           processedCount := Suc (processedCount st)\<rparr>)"
| "recordResults batch (Rejected reason # rest) i st =
     recordResults batch rest (Suc i)
       (st\<lparr>resultsAcc := resultsAcc st @
             [\<lparr>uri = batch ! i, success = False, response = None,
               error = Some (case reason of
                               Error m \<Rightarrow> if m = [] then ''Unknown error'' else m
                             | NonError v \<Rightarrow> ''Unknown error''),
               resultModel = None, tokens = None\<rparr>],
           processedCount := Suc (processedCount st)\<rparr>)"

text \<open>
  The body of the loop over the batches, for the batch at \<open>batchIndex\<close>: the items are
  dispatched together, the run is suspended until all have settled (and for the pacing
  delay), and the outcomes are recorded in the order of the batch.
\<close>

definition runBatch ::
  "Env \<Rightarrow> Operation \<Rightarrow> string \<Rightarrow> nat \<Rightarrow> Uri list list \<Rightarrow> nat \<Rightarrow> RunState \<Rightarrow> RunState" where
  "runBatch env op selectedModel batchSize batches batchIndex st =
     (let batch = batches ! batchIndex;
          batchPromises = map (\<lambda>target. processItem env target op selectedModel) batch;
          order = completionOrder env batch;
          batchResults = allSettled order (map fst batchPromises);
          inFlight = st\<lparr>processor := externalCalls (during env (Suc batchIndex)) (processor st),
                        effects := effects st @ concat (map (\<lambda>i. snd (batchPromises ! i)) order)\<rparr>;
          recorded = recordResults batch batchResults 0 inFlight
      in if batchIndex < length batches - 1 \<and> batchSize > 1
         then recorded\<lparr>effects := effects recorded @ [PacingDelay 1000]\<rparr>
         else recorded)"

text \<open>The loop over the batches, from \<open>batchIndex\<close> on.\<close>

function batchLoop ::
  "Env \<Rightarrow> Operation \<Rightarrow> string \<Rightarrow> nat \<Rightarrow> Uri list list \<Rightarrow> nat \<Rightarrow> RunState \<Rightarrow> RunState" where
  "batchLoop env op selectedModel batchSize batches batchIndex st =
     (if batchIndex < length batches then
        (if cancellationRequested (processor st) then st
         else batchLoop env op selectedModel batchSize batches (Suc batchIndex)
                (runBatch env op selectedModel batchSize batches batchIndex st))
      else st)"
  by pat_completeness auto
termination
  by (relation "measure (\<lambda>(env, op, selectedModel, batchSize, batches, batchIndex, st).
        length batches - batchIndex)") auto

declare batchLoop.simps [simp del]

text \<open>\<open>LLMProvider.selectModel\<close>\<close>

definition selectModel :: "Env \<Rightarrow> string option" where
  "selectModel env =
     (let models = availableModels env
      in if length models = 0 then None
         else if length models = 1 then Some (models ! 0)
         else showQuickPick env models)"

definition summary :: "Env \<Rightarrow> RunState \<Rightarrow> BatchResult" where
  "summary env st =
     \<lparr>results = resultsAcc st,
      totalProcessed = length (resultsAcc st),
      totalSuccessful = length (filter (\<lambda>r. success r) (resultsAcc st)),
      totalFailed = length (filter (\<lambda>r. \<not> success r) (resultsAcc st)),
      totalTokens = totalTokensAcc st,
      duration = endTime env - startTime env\<rparr>"

text \<open>
  The \<open>try\<close> block of \<open>process\<close>, entered with the engine claimed. The test
  \<open>!selectedModel\<close> holds when no model was selected and when the selected model is the
  empty string.
\<close>

definition process_try ::
  "Env \<Rightarrow> Uri list \<Rightarrow> Operation \<Rightarrow> nat \<Rightarrow> BatchProcessor
     \<Rightarrow> BatchResult Completion \<times> BatchProcessor \<times> Event list" where
  "process_try env uris op batchSize this =
     (let selecting = externalCalls (during env 0) this;
          noModel = (Threw (Error ''No model selected''), selecting, [])
      in case selectModel env of
           None \<Rightarrow> noModel
         | Some selectedModel \<Rightarrow>
             if selectedModel = [] then noModel
             else
               (case createBatches uris batchSize of
                  None \<Rightarrow> (Diverged, selecting, [])
                | Some batches \<Rightarrow>
                    (let st = batchLoop env op selectedModel batchSize batches 0
                                \<lparr>processor = selecting, effects = [], resultsAcc = [],
                                 totalTokensAcc = 0, processedCount = 0\<rparr>;
                         reporting = externalCalls (during env (Suc (length batches))) (processor st)
                     in (case showResultsError env of
                           None \<Rightarrow> Returned (summary env st)
                         | Some e \<Rightarrow> Threw e,
                         reporting, effects st @ [ShowResults]))))"

text \<open>
  \<open>process\<close>: the guard, the claim, the \<open>try\<close> block and the \<open>finally\<close> block. The result
  is how the call ends, the engine it leaves and the effects it had.
\<close>

definition process ::
  "Env \<Rightarrow> Uri list \<Rightarrow> Operation \<Rightarrow> nat \<Rightarrow> BatchProcessor
     \<Rightarrow> BatchResult Completion \<times> BatchProcessor \<times> Event list" where
  "process env uris op batchSize this =
     (case claim this of
        Inl e \<Rightarrow> (Threw e, this, [])
      | Inr claimed \<Rightarrow>
          (case process_try env uris op batchSize claimed of
             (Diverged, left, evs) \<Rightarrow> (Diverged, left, evs)
           | (outcome, left, evs) \<Rightarrow>
               (outcome, left\<lparr>isProcessing := False, cancellationToken := None\<rparr>,
                evs @ [Released])))"

text \<open>
  The number of batches a run dispatches: batch \<open>j\<close> starts when no cancellation was
  requested at the suspensions \<open>0, \<dots>, j\<close>.
\<close>

definition dispatched :: "Env \<Rightarrow> nat \<Rightarrow> nat" where
  "dispatched env n = length (takeWhile (\<lambda>j. CallCancel \<notin> set (during env j)) [0..<n])"

text \<open>The same collaborators, with no call of \<open>process\<close> made during the run.\<close>

definition withoutSecondCalls :: "Env \<Rightarrow> Env" where
  "withoutSecondCalls env = env\<lparr>during := \<lambda>k. filter (\<lambda>c. c \<noteq> CallProcess) (during env k)\<rparr>"

section \<open>The batch tool of the MCP server\<close>

text \<open>
  The arguments of a \<open>batch_process_files\<close> call: a field that is absent is \<open>None\<close>
  (\<open>file_patterns\<close> also when it is not an array); an empty string is falsy as an
  absent field is.
\<close>

record ToolArgs =
  type :: "string option"
  item_name :: "string option"
  file_patterns :: "string list option"
  batch_size :: "nat option"

text \<open>
  A response carries a result or an error with its code and message. The result object
  of the handler holds the fields of the \<open>BatchResult\<close> under other names.
\<close>

datatype MCPResponse = ResultResponse BatchResult | ErrorResponse int string

text \<open>
  \<open>Array.prototype.find\<close>: an argument that is not callable makes it throw a
  \<open>TypeError\<close> before it looks at any element. The wording of the message is the
  JavaScript engine's; it is the parameter \<open>typeErrorText\<close>.
\<close>

datatype 'a FindArgument = Callable "'a \<Rightarrow> bool" | NotCallable string

fun arrayFind :: "(string \<Rightarrow> string) \<Rightarrow> 'a list \<Rightarrow> 'a FindArgument \<Rightarrow> thrown + 'a option" where
  "arrayFind typeErrorText xs (Callable p) = Inr (List.find p xs)"
| "arrayFind typeErrorText xs (NotCallable v) = Inl (Error (typeErrorText v))"

record Server =
  tasks :: "Task list"
  prompts :: "Prompt list"
  findFiles :: "string \<Rightarrow> Uri list"
  typeErrorText :: "string \<Rightarrow> string"

text \<open>\<open>PromptManager.getPrompt\<close>\<close>

definition getPrompt :: "Server \<Rightarrow> string \<Rightarrow> Prompt option" where
  "getPrompt server wanted = List.find (\<lambda>p. name p = wanted) (prompts server)"

text \<open>The part of the handler from the file search on, once the item is found.\<close>

definition processFiles ::
  "Env \<Rightarrow> Server \<Rightarrow> string list \<Rightarrow> Operation \<Rightarrow> nat \<Rightarrow> BatchProcessor
     \<Rightarrow> MCPResponse Completion \<times> BatchProcessor \<times> Event list" where
  "processFiles env server patterns op batchSize this =
     (let uris = concat (map (findFiles server) patterns)
      in if length uris = 0
         then (Returned (ErrorResponse (- 32602)
                 ''No files found matching the specified patterns''), this, [])
         else (case process env uris op batchSize this of
                 (Returned r, left, evs) \<Rightarrow> (Returned (ResultResponse r), left, evs)
               | (Threw e, left, evs) \<Rightarrow> (Threw e, left, evs)
               | (Diverged, left, evs) \<Rightarrow> (Diverged, left, evs)))"

text \<open>The \<open>try\<close> block of \<open>handleBatchProcessFiles\<close>.\<close>

definition handleBatchProcessFiles_try ::
  "Env \<Rightarrow> Server \<Rightarrow> ToolArgs \<Rightarrow> BatchProcessor
     \<Rightarrow> MCPResponse Completion \<times> BatchProcessor \<times> Event list" where
  "handleBatchProcessFiles_try env server args this =
     (let batchSize = (case batch_size args of None \<Rightarrow> 1 | Some b \<Rightarrow> b);
          invalid = (Returned (ErrorResponse (- 32602)
                       ''Invalid parameters. Required: type, item_name, file_patterns''), this, [])
      in case (type args, item_name args, file_patterns args) of
           (Some kind, Some wanted, Some patterns) \<Rightarrow>
             if kind = [] \<or> wanted = [] then invalid
             else if kind = ''task''
             then (case arrayFind (typeErrorText server) (tasks server) (NotCallable wanted) of
                     Inl e \<Rightarrow> (Threw e, this, [])
                   | Inr None \<Rightarrow>
                       (Returned (ErrorResponse (- 32602) (''Task not found: '' @ wanted)),
                        this, [])
                   | Inr (Some task) \<Rightarrow>
                       processFiles env server patterns (TaskOp task) batchSize this)
             else if kind = ''prompt''
             then (case getPrompt server wanted of
                     None \<Rightarrow>
                       (Returned (ErrorResponse (- 32602) (''Prompt not found: '' @ wanted)),
                        this, [])
                   | Some pr \<Rightarrow>
                       processFiles env server patterns (PromptOp pr) batchSize this)
             else (Returned (ErrorResponse (- 32602)
                     (''Type must be '' @ [CHR 0x22] @ ''task'' @ [CHR 0x22] @ '' or ''
                        @ [CHR 0x22] @ ''prompt'' @ [CHR 0x22])), this, [])
         | _ \<Rightarrow> invalid)"

text \<open>\<open>handleBatchProcessFiles\<close>: whatever the \<open>try\<close> block throws becomes an error response.\<close>

definition handleBatchProcessFiles ::
  "Env \<Rightarrow> Server \<Rightarrow> ToolArgs \<Rightarrow> BatchProcessor
     \<Rightarrow> MCPResponse Completion \<times> BatchProcessor \<times> Event list" where
  "handleBatchProcessFiles env server args this =
     (case handleBatchProcessFiles_try env server args this of
        (Threw e, left, evs) \<Rightarrow>
          (Returned (ErrorResponse (- 32603)
             (case e of Error m \<Rightarrow> m | NonError v \<Rightarrow> v)), left, evs)
      | (outcome, left, evs) \<Rightarrow> (outcome, left, evs))"

section \<open>A run of five targets\<close>

text \<open>
  An engine at rest and one with a run in flight; five targets, of which the second cannot
  be read and the third is refused by the backend; a prompt; and collaborators with one
  model, under which the first target is the slowest of its batch.
\<close>

definition idleEngine :: BatchProcessor where
  "idleEngine = \<lparr>isProcessing = False, cancellationToken = None\<rparr>"

definition activeEngine :: BatchProcessor where
  "activeEngine = \<lparr>isProcessing = True,
                   cancellationToken = Some \<lparr>isCancellationRequested = False\<rparr>\<rparr>"

definition exampleTargets :: "Uri list" where
  "exampleTargets =
     [Uri ''/w/a.txt'', Uri ''/w/b.txt'', Uri ''/w/c.txt'', Uri ''/w/d.txt'', Uri ''/w/e.txt'']"

definition examplePrompt :: Operation where
  "examplePrompt = PromptOp \<lparr>name = ''summarise'', content = ''Summarise {{FILE_NAME}}''\<rparr>"

definition exampleEnv :: Env where
  "exampleEnv =
     \<lparr>availableModels = [''m1''],
      showQuickPick = (\<lambda>models. None),
      fsNode = (\<lambda>target. if fsPath target = ''/w/b.txt'' then Inl ''ENOENT''
                         else Inr (FileNode (''text of '' @ fsPath target))),
      provider = Ollama,
      backend = (\<lambda>request.
                  if prompt request = ''Summarise c.txt'' then Inl ''rate limited''
                  else Inr \<lparr>responseContent = ''ok: '' @ prompt request,
                            responseModel = Some (model request),
                            usageTotalTokens = Some 7\<rparr>),
      workspaceFolder = Some ''/w'',
      latency = (\<lambda>target. if fsPath target = ''/w/a.txt'' then 5 else 1),
      during = (\<lambda>k. []),
      showResultsError = None,
      startTime = 100,
      endTime = 250\<rparr>"

text \<open>
  The same run with a second call of \<open>process\<close> and a cancellation arriving while the
  second batch is in flight.
\<close>

definition cancelledEnv :: Env where
  "cancelledEnv = exampleEnv\<lparr>during := \<lambda>k. if k = 2 then [CallProcess, CallCancel] else []\<rparr>"

text \<open>A server with one task and one prompt, on an engine that words the error as Node 22 does.\<close>

definition exampleServer :: Server where
  "exampleServer =
     \<lparr>tasks = [\<lparr>label = Some ''build'', command = ''npm run build'', aiPrompt = None\<rparr>],
      prompts = [\<lparr>name = ''summarise'', content = ''Summarise {{FILE_NAME}}''\<rparr>],
      findFiles = (\<lambda>pattern. if pattern = ''**/*.txt'' then exampleTargets else []),
      typeErrorText = (\<lambda>v. ''string '' @ [CHR 0x22] @ v @ [CHR 0x22] @ '' is not a function'')\<rparr>"

section \<open>Properties of the partition\<close>

lemma ceilDiv_add_self:
  assumes "1 \<le> b"
  shows "ceilDiv (m + b) b = Suc (ceilDiv m b)"
proof -
  have "m + b + b - 1 = (m + b - 1) + b" using assms by linarith
  then have "(m + b + b - 1) div b = (m + b - 1) div b + 1"
    using assms by (simp only: div_add_self2)
  then show ?thesis by (simp only: ceilDiv_def Suc_eq_plus1)
qed

lemma ceilDiv_small:
  assumes "1 \<le> b" "0 < m" "m \<le> b"
  shows "ceilDiv m b = 1"
proof -
  have "b \<le> m + b - 1" using assms by linarith
  moreover have "m + b - 1 < 2 * b" using assms by linarith
  ultimately have "(m + b - 1) div b = 1"
    by (intro div_nat_eqI) simp_all
  then show ?thesis by (simp only: ceilDiv_def)
qed

lemma ceilDiv_zero: "1 \<le> b \<Longrightarrow> ceilDiv 0 b = 0"
  by (simp add: ceilDiv_def)

lemma ceilDiv_step:
  assumes "1 \<le> b" "i < n"
  shows "ceilDiv (n - i) b = Suc (ceilDiv (n - (i + b)) b)"
proof (cases "i + b \<le> n")
  case True
  then have "n - i = (n - (i + b)) + b" by linarith
  then show ?thesis using ceilDiv_add_self [OF assms(1), of "n - (i + b)"] by (simp only:)
next
  case False
  then have z: "n - (i + b) = 0" by linarith
  have "ceilDiv (n - i) b = 1"
    using assms False by (intro ceilDiv_small) linarith+
  then show ?thesis by (simp only: z ceilDiv_zero [OF assms(1)])
qed

lemma ceilDiv_covers:
  assumes "1 \<le> b"
  shows "n \<le> ceilDiv n b * b"
proof -
  have "n + b - 1 = (n + b - 1) div b * b + (n + b - 1) mod b" by simp
  moreover have "(n + b - 1) mod b < b" using assms by simp
  ultimately show ?thesis unfolding ceilDiv_def by linarith
qed

lemma ceilDiv_tight:
  assumes "1 \<le> b" "0 < n"
  shows "(ceilDiv n b - 1) * b < n"
proof -
  define q where "q = ceilDiv n b"
  have "q * b \<le> n + b - 1" unfolding q_def ceilDiv_def by simp
  then have "q * b - b < n" using assms by linarith
  then show ?thesis unfolding q_def by (simp add: diff_mult_distrib)
qed

text \<open>With a positive batch size the loop ends, and its result has a closed form.\<close>

lemma createBatches_loop_closed:
  assumes "1 \<le> b"
  shows "createBatches_loop items b i acc =
         Some (acc @ map (\<lambda>k. take b (drop (i + k * b) items))
                       [0..<ceilDiv (length items - i) b])"
proof (induction "length items - i" arbitrary: i acc rule: less_induct)
  case less
  show ?case
  proof (cases "i < length items")
    case False
    then have "ceilDiv (length items - i) b = 0" using assms by (simp add: ceilDiv_def)
    then show ?thesis using False by (subst createBatches_loop.simps) simp
  next
    case True
    have dec: "length items - (i + b) < length items - i" using True assms by simp
    have step: "ceilDiv (length items - i) b = Suc (ceilDiv (length items - (i + b)) b)"
      using ceilDiv_step [OF assms True] .
    have "createBatches_loop items b i acc =
          createBatches_loop items b (i + b) (acc @ [slice items i (i + b)])"
      using True by (subst createBatches_loop.simps) simp
    also have "\<dots> = Some ((acc @ [slice items i (i + b)]) @
        map (\<lambda>k. take b (drop ((i + b) + k * b) items))
          [0..<ceilDiv (length items - (i + b)) b])"
      using less [OF dec] .
    also have "\<dots> = Some (acc @ map (\<lambda>k. take b (drop (i + k * b) items))
                                  [0..<ceilDiv (length items - i) b])"
    proof -
      have sh: "[Suc 0..<Suc c] = map Suc [0..<c]" for c by (simp add: map_Suc_upt)
      show ?thesis unfolding step
        by (simp add: slice_def upt_conv_Cons sh o_def add.assoc del: upt_Suc)
    qed
    finally show ?thesis .
  qed
qed

lemma createBatches_closed:
  "1 \<le> b \<Longrightarrow>
   createBatches items b = Some (map (batchAt items b) [0..<ceilDiv (length items) b])"
  unfolding createBatches_def batchAt_def
  by (simp add: createBatches_loop_closed)

lemma concat_batchAt: "concat (map (batchAt items b) [0..<m]) = take (m * b) items"
proof (induction m)
  case 0
  show ?case by simp
next
  case (Suc m)
  have "take (m * b) items @ take b (drop (m * b) items) = take (m * b + b) items"
    by (simp add: take_add)
  then show ?case using Suc by (simp add: batchAt_def add.commute)
qed

lemma length_batchAt_full:
  assumes "Suc k * b \<le> length items"
  shows "length (batchAt items b k) = b"
  using assms by (simp add: batchAt_def)

lemma length_batchAt_last:
  assumes "1 \<le> b" "0 < length items"
  shows "length (batchAt items b (ceilDiv (length items) b - 1)) =
         (if length items mod b = 0 then b else length items mod b)"
proof -
  define n where "n = length items"
  define q where "q = ceilDiv n b - 1"
  have qb: "q * b < n" using ceilDiv_tight [OF assms(1), of n] assms(2) by (simp add: q_def n_def)
  have "1 \<le> ceilDiv n b"
    using ceilDiv_covers [OF assms(1), of n] assms(2) by (cases "ceilDiv n b") (auto simp: n_def)
  then have "ceilDiv n b = Suc q" by (simp add: q_def)
  then have cover: "n \<le> q * b + b" using ceilDiv_covers [OF assms(1), of n] by simp
  have len: "length (batchAt items b q) = min b (n - q * b)"
    by (simp add: batchAt_def n_def)
  show ?thesis
  proof (cases "n mod b = 0")
    case True
    then have "b dvd n" by (simp add: mod_0_imp_dvd)
    then obtain m where m: "n = m * b" by (auto simp: dvd_def mult.commute)
    with qb have "q < m" using assms(1) by (metis mult_less_cancel2)
    then have "Suc q \<le> m" by simp
    then have "Suc q * b \<le> n" unfolding m by (rule mult_le_mono1)
    then have "n - q * b = b" using cover by simp
    then show ?thesis using True len by (simp add: n_def q_def)
  next
    case False
    have "n - q * b < b \<or> n - q * b = b" using cover by linarith
    moreover have "n - q * b \<noteq> b"
    proof
      assume "n - q * b = b"
      then have "n = Suc q * b" using qb by simp
      then show False using False by simp
    qed
    ultimately have lt: "n - q * b < b" by blast
    have "n = q * b + (n - q * b)" using qb by simp
    then have "n mod b = (n - q * b) mod b" by (metis mod_mult_self3)
    then have "n mod b = n - q * b" using lt by simp
    then show ?thesis using False len lt by (simp add: n_def q_def)
  qed
qed

text \<open>
  C3. For a batch size \<open>b \<ge> 1\<close>, \<open>createBatches\<close> returns; the number of batches is
  \<open>ceil(n / b)\<close> (the least \<open>m\<close> with \<open>n \<le> m * b\<close>); the \<open>k\<close>-th batch is the \<open>k\<close>-th
  block of \<open>b\<close> consecutive items of the input; every batch but the last has \<open>b\<close> items;
  the last has \<open>n mod b\<close> items, or \<open>b\<close> when \<open>b\<close> divides \<open>n\<close>; and the batches
  concatenated give the input back.
\<close>

theorem createBatches_partition:
  assumes "1 \<le> b"
  shows "\<exists>bs. createBatches items b = Some bs
           \<and> length bs = (length items + b - 1) div b
           \<and> length items \<le> length bs * b
           \<and> (0 < length items \<longrightarrow> (length bs - 1) * b < length items)
           \<and> (\<forall>k < length bs. bs ! k = take b (drop (k * b) items))
           \<and> (\<forall>k. Suc k < length bs \<longrightarrow> length (bs ! k) = b)
           \<and> (bs \<noteq> [] \<longrightarrow> length (last bs) =
                 (if length items mod b = 0 then b else length items mod b))
           \<and> concat bs = items"
proof -
  define n where "n = length items"
  define bs where "bs = map (batchAt items b) [0..<ceilDiv n b]"
  have ret: "createBatches items b = Some bs"
    using createBatches_closed [OF assms] by (simp add: bs_def n_def)
  have len: "length bs = ceilDiv n b" by (simp add: bs_def)
  have cover: "n \<le> length bs * b" using ceilDiv_covers [OF assms] by (simp add: len)
  have tight: "0 < n \<longrightarrow> (length bs - 1) * b < n"
    using ceilDiv_tight [OF assms] by (simp add: len)
  have nth: "\<forall>k < length bs. bs ! k = take b (drop (k * b) items)"
    by (simp add: bs_def batchAt_def)
  have full: "length (bs ! k) = b" if "Suc k < length bs" for k
  proof -
    have "0 < n" using that len assms by (cases "n = 0") (auto simp: ceilDiv_def)
    then have "(length bs - 1) * b < n" using tight by simp
    moreover have "Suc k * b \<le> (length bs - 1) * b"
      using that by (intro mult_le_mono1) simp
    ultimately have "Suc k * b \<le> length items" by (simp add: n_def)
    then have "length (batchAt items b k) = b" by (rule length_batchAt_full)
    then show ?thesis using that by (simp add: bs_def)
  qed
  have lastb: "length (last bs) = (if n mod b = 0 then b else n mod b)" if "bs \<noteq> []"
  proof -
    have pos: "0 < ceilDiv n b" using that len by (cases "ceilDiv n b") auto
    then have "0 < length items" using assms by (cases "n = 0") (auto simp: ceilDiv_def n_def)
    then have "length (batchAt items b (ceilDiv (length items) b - 1)) =
               (if length items mod b = 0 then b else length items mod b)"
      by (rule length_batchAt_last [OF assms])
    moreover have "last bs = batchAt items b (ceilDiv n b - 1)"
      using that pos by (simp add: last_conv_nth len) (simp add: bs_def)
    ultimately show ?thesis by (simp only: n_def)
  qed
  have cat: "concat bs = items"
    using cover by (simp add: bs_def concat_batchAt len n_def)
  show ?thesis
    using ret len cover tight nth full lastb cat
    unfolding n_def ceilDiv_def by blast
qed

theorem createBatches_partition_witness:
  "(1::nat) \<le> 2 \<and> createBatches [1, 2, 3, 4, 5 :: nat] 2 = Some [[1, 2], [3, 4], [5]]"
proof -
  have h: "(1::nat) \<le> 2" by simp
  from createBatches_partition [OF h, of "[1, 2, 3, 4, 5 :: nat]"]
  obtain bs where ret: "createBatches [1, 2, 3, 4, 5 :: nat] 2 = Some bs"
    and len: "length bs = 3"
    and nth: "\<forall>k < length bs. bs ! k = take 2 (drop (k * 2) [1, 2, 3, 4, 5 :: nat])"
    by auto
  have e0: "bs ! 0 = [1, 2]" using nth len by simp
  have e1: "bs ! Suc 0 = [3, 4]" using nth len by simp
  have "bs ! 2 = [5]" using nth len by simp
  then have e2: "bs ! Suc (Suc 0) = [5]" by (simp add: numeral_2_eq_2)
  have "bs = [[1, 2], [3, 4], [5]]"
    using len e0 e1 e2 by (auto simp: list_eq_iff_nth_eq less_Suc_eq numeral_3_eq_3)
  then show ?thesis using ret h by simp
qed

section \<open>Settling, recording and external calls\<close>

lemma fold_slots_length:
  "length (fold (\<lambda>i slots. slots[i := Some (settled ! i)]) order slots) = length slots"
  by (induction order arbitrary: slots) auto

lemma fold_slots_nth:
  "i < length slots \<Longrightarrow>
   fold (\<lambda>i slots. slots[i := Some (settled ! i)]) order slots ! i =
     (if i \<in> set order then Some (settled ! i) else slots ! i)"
proof (induction order arbitrary: slots)
  case Nil
  show ?case by simp
next
  case (Cons j order)
  have "i < length (slots[j := Some (settled ! j)])" using Cons.prems by simp
  from Cons.IH [OF this] show ?case using Cons.prems
    by (cases "i = j") auto
qed

lemma allSettled_permutation:
  assumes "set order = {0..<length settled}"
  shows "allSettled order settled = settled"
proof (rule nth_equalityI)
  show "length (allSettled order settled) = length settled"
    by (simp add: allSettled_def fold_slots_length)
next
  fix i
  assume "i < length (allSettled order settled)"
  then have i: "i < length settled" by (simp add: allSettled_def fold_slots_length)
  then have "i \<in> set order" using assms by simp
  then show "allSettled order settled ! i = settled ! i"
    using i by (simp add: allSettled_def fold_slots_length fold_slots_nth)
qed

lemma set_completionOrder: "set (completionOrder env batch) = {0..<length batch}"
  by (simp add: completionOrder_def)

lemma allSettled_completionOrder:
  "allSettled (completionOrder env batch) (map f batch) = map f batch"
  by (rule allSettled_permutation) (simp add: set_completionOrder)

lemma processItem_fulfilled: "\<exists>r. fst (processItem env target op m) = Fulfilled r"
  by (simp add: processItem_def split: prod.split sum.split)

lemma recordResults_processor [simp]:
  "processor (recordResults batch rs i st) = processor st"
  by (induction batch rs i st rule: recordResults.induct) simp_all

lemma recordResults_effects [simp]:
  "effects (recordResults batch rs i st) = effects st"
  by (induction batch rs i st rule: recordResults.induct) simp_all

lemma recordResults_fulfilled:
  "\<forall>x \<in> set rs. \<exists>v. x = Fulfilled v \<Longrightarrow>
   map Fulfilled (resultsAcc (recordResults batch rs i st)) = map Fulfilled (resultsAcc st) @ rs"
  by (induction batch rs i st rule: recordResults.induct) auto

lemma cancel_isProcessing [simp]: "isProcessing (cancel this) = isProcessing this"
  by (simp add: cancel_def split: option.split)

lemma externalCall_active:
  "isProcessing this \<Longrightarrow> externalCall c this = (if c = CallCancel then cancel this else this)"
  by (cases c) (simp_all add: claim_def)

lemma externalCalls_isProcessing:
  "isProcessing this \<Longrightarrow> isProcessing (externalCalls cs this)"
  unfolding externalCalls_def
  by (induction cs arbitrary: this) (simp_all add: externalCall_active)

lemma externalCalls_filter:
  "isProcessing this \<Longrightarrow>
   externalCalls (filter (\<lambda>c. c \<noteq> CallProcess) cs) this = externalCalls cs this"
  unfolding externalCalls_def
  by (induction cs arbitrary: this) (simp_all add: externalCall_active)

lemma externalCalls_token:
  "isProcessing this \<Longrightarrow> cancellationToken this = Some t \<Longrightarrow>
   cancellationToken (externalCalls cs this) =
     Some (t\<lparr>isCancellationRequested := isCancellationRequested t \<or> CallCancel \<in> set cs\<rparr>)"
  unfolding externalCalls_def
proof (induction cs arbitrary: this t)
  case Nil
  then show ?case by simp
next
  case (Cons c cs)
  show ?case
  proof (cases "c = CallCancel")
    case True
    have "isProcessing (cancel this)" using Cons.prems by simp
    moreover have "cancellationToken (cancel this) = Some (t\<lparr>isCancellationRequested := True\<rparr>)"
      using Cons.prems by (simp add: cancel_def)
    ultimately show ?thesis using Cons.IH [of "cancel this" "t\<lparr>isCancellationRequested := True\<rparr>"] True
      by simp
  next
    case False
    then have "externalCall c this = this" using Cons.prems by (simp add: externalCall_active)
    then show ?thesis using Cons.IH [OF Cons.prems] False by simp
  qed
qed

lemma takeWhile_upt_split:
  assumes "\<forall>j<i. P j" "i \<le> n"
  shows "takeWhile P [0..<n] = [0..<i] @ takeWhile P [i..<n]"
proof -
  have "[0..<i + (n - i)] = [0..<i] @ [i..<i + (n - i)]"
    by (rule upt_add_eq_append) simp
  then have "[0..<n] = [0..<i] @ [i..<n]" using assms(2) by simp
  moreover have "takeWhile P ([0..<i] @ [i..<n]) = [0..<i] @ takeWhile P [i..<n]"
    by (rule takeWhile_append2) (use assms(1) in simp)
  ultimately show ?thesis by (simp only:)
qed

lemma dispatched_le: "dispatched env n \<le> n"
  unfolding dispatched_def by (metis length_takeWhile_le length_upt diff_zero)

lemma dispatched_ge:
  "\<forall>j<i. CallCancel \<notin> set (during env j) \<Longrightarrow> i \<le> n \<Longrightarrow> i \<le> dispatched env n"
  unfolding dispatched_def
  by (subst takeWhile_upt_split [where i = i]) simp_all

lemma dispatched_stop:
  "\<forall>j<i. CallCancel \<notin> set (during env j) \<Longrightarrow> i < n \<Longrightarrow> CallCancel \<in> set (during env i)
   \<Longrightarrow> dispatched env n = i"
  unfolding dispatched_def
  by (subst takeWhile_upt_split [where i = i]) (simp_all add: upt_conv_Cons)


lemma processItem_events_not_Released: "Released \<notin> set (snd (processItem env target op m))"
  by (simp add: processItem_def processItem_try_def saveResult_def Let_def
           split: prod.split sum.split option.split)

lemma runBatch_processor:
  "processor (runBatch env op m b batches i st) =
     externalCalls (during env (Suc i)) (processor st)"
  by (simp add: runBatch_def Let_def)

lemma runBatch_results:
  "map Fulfilled (resultsAcc (runBatch env op m b batches i st)) =
     map Fulfilled (resultsAcc st) @ map (\<lambda>u. fst (processItem env u op m)) (batches ! i)"
proof -
  have all: "\<forall>x \<in> set (map (\<lambda>u. fst (processItem env u op m)) (batches ! i)). \<exists>v. x = Fulfilled v"
    using processItem_fulfilled by auto
  show ?thesis
    using recordResults_fulfilled [OF all]
    by (simp add: runBatch_def Let_def allSettled_completionOrder o_def)
qed

lemma runBatch_no_Released:
  assumes "Released \<notin> set (effects st)"
  shows "Released \<notin> set (effects (runBatch env op m b batches i st))"
proof -
  have "Released \<notin> set (concat (map (\<lambda>k. snd (map (\<lambda>u. processItem env u op m) (batches ! i) ! k))
            (completionOrder env (batches ! i))))"
    using processItem_events_not_Released by (auto simp: set_completionOrder)
  then show ?thesis using assms by (simp add: runBatch_def Let_def)
qed

lemma batchLoop_no_Released:
  "Released \<notin> set (effects st) \<Longrightarrow> Released \<notin> set (effects (batchLoop env op m b batches i st))"
proof (induction env op m b batches i st rule: batchLoop.induct)
  case (1 env op m b batches i st)
  show ?case
  proof (cases "i < length batches \<and> \<not> cancellationRequested (processor st)")
    case True
    then have "Released \<notin> set (effects (batchLoop env op m b batches (Suc i) (runBatch env op m b batches i st)))"
      using "1.IH" runBatch_no_Released [OF "1.prems"] by blast
    then show ?thesis using True by (subst batchLoop.simps) simp
  next
    case False
    then show ?thesis using "1.prems" by (subst batchLoop.simps) auto
  qed
qed

lemma batchLoop_results:
  assumes "isProcessing (processor st)"
    and "cancellationToken (processor st) = Some t"
    and "isCancellationRequested t = (\<exists>j\<le>i. CallCancel \<in> set (during env j))"
    and "\<forall>j<i. CallCancel \<notin> set (during env j)"
    and "i \<le> length batches"
  shows "map Fulfilled (resultsAcc (batchLoop env op m b batches i st)) =
           map Fulfilled (resultsAcc st) @
           map (\<lambda>u. fst (processItem env u op m))
             (concat (take (dispatched env (length batches) - i) (drop i batches)))"
  using assms
proof (induction "length batches - i" arbitrary: i st t rule: less_induct)
  case less
  define D where "D = dispatched env (length batches)"
  have cr: "cancellationRequested (processor st) = (\<exists>j\<le>i. CallCancel \<in> set (during env j))"
    using less.prems(2,3) by (simp add: cancellationRequested_def)
  show ?case
  proof (cases "i < length batches")
    case False
    then have "i = length batches" using less.prems(5) by simp
    moreover have "D \<le> length batches" unfolding D_def by (rule dispatched_le)
    ultimately show ?thesis using False
      by (subst batchLoop.simps) (simp add: D_def [symmetric])
  next
    case True
    show ?thesis
    proof (cases "cancellationRequested (processor st)")
      case c: True
      then have "CallCancel \<in> set (during env i)"
        using cr less.prems(4) by (metis le_neq_implies_less)
      then have "D = i" unfolding D_def using less.prems(4) True by (intro dispatched_stop)
      then show ?thesis using True c
        by (subst batchLoop.simps) (simp add: D_def [symmetric])
    next
      case c: False
      then have clean: "\<forall>j<Suc i. CallCancel \<notin> set (during env j)"
        using cr by (simp add: less_Suc_eq_le)
      then have Dge: "Suc i \<le> D" unfolding D_def using True by (intro dispatched_ge) simp_all
      define st' where "st' = runBatch env op m b batches i st"
      define t' where "t' = t\<lparr>isCancellationRequested :=
                             isCancellationRequested t \<or> CallCancel \<in> set (during env (Suc i))\<rparr>"
      have p1: "isProcessing (processor st')"
        unfolding st'_def runBatch_processor using less.prems(1) by (rule externalCalls_isProcessing)
      have p2: "cancellationToken (processor st') = Some t'"
        unfolding st'_def t'_def runBatch_processor
        using less.prems(1,2) by (rule externalCalls_token)
      have "isCancellationRequested t = False" using c cr less.prems(3) by simp
      then have p3: "isCancellationRequested t' = (\<exists>j\<le>Suc i. CallCancel \<in> set (during env j))"
        using clean unfolding t'_def by (auto simp: le_Suc_eq less_Suc_eq_le)
      have p5: "Suc i \<le> length batches" using True by simp
      have dec: "length batches - Suc i < length batches - i" using True by simp
      have "batchLoop env op m b batches i st = batchLoop env op m b batches (Suc i) st'"
        using True c by (subst batchLoop.simps) (simp add: st'_def)
      moreover have "map Fulfilled (resultsAcc (batchLoop env op m b batches (Suc i) st')) =
           map Fulfilled (resultsAcc st') @
           map (\<lambda>u. fst (processItem env u op m))
             (concat (take (D - Suc i) (drop (Suc i) batches)))"
        unfolding D_def using less.hyps [OF dec p1 p2 p3 clean p5] .
      moreover have "map Fulfilled (resultsAcc st') =
           map Fulfilled (resultsAcc st) @ map (\<lambda>u. fst (processItem env u op m)) (batches ! i)"
        unfolding st'_def by (rule runBatch_results)
      moreover have "take (D - i) (drop i batches) =
                     batches ! i # take (D - Suc i) (drop (Suc i) batches)"
      proof -
        have "D - i = Suc (D - Suc i)" using Dge by simp
        moreover have "drop i batches = batches ! i # drop (Suc i) batches"
          using True by (simp add: Cons_nth_drop_Suc)
        ultimately show ?thesis by simp
      qed
      ultimately show ?thesis by (simp add: D_def [symmetric])
    qed
  qed
qed


lemma claim_idle:
  "\<not> isProcessing this \<Longrightarrow>
   claim this = Inr \<lparr>isProcessing = True,
                     cancellationToken = Some \<lparr>isCancellationRequested = False\<rparr>\<rparr>"
  by (simp add: claim_def)

lemma claim_active:
  "isProcessing this \<Longrightarrow>
   claim this = Inl (Error ''Another batch operation is already in progress'')"
  by (simp add: claim_def)

lemma batchLoop_isProcessing:
  "isProcessing (processor st) \<Longrightarrow> isProcessing (processor (batchLoop env op m b batches i st))"
proof (induction env op m b batches i st rule: batchLoop.induct)
  case (1 env op m b batches i st)
  show ?case
  proof (cases "i < length batches \<and> \<not> cancellationRequested (processor st)")
    case True
    have "isProcessing (processor (runBatch env op m b batches i st))"
      unfolding runBatch_processor using "1.prems" by (rule externalCalls_isProcessing)
    then have "isProcessing (processor (batchLoop env op m b batches (Suc i)
                 (runBatch env op m b batches i st)))"
      using "1.IH" True by blast
    then show ?thesis using True by (subst batchLoop.simps) simp
  next
    case False
    then show ?thesis using "1.prems" by (subst batchLoop.simps) auto
  qed
qed

lemma processItem_withoutSecondCalls:
  "processItem (withoutSecondCalls env) u op m = processItem env u op m"
proof -
  have g: "getFileContent (withoutSecondCalls env) u = getFileContent env u"
    by (simp add: getFileContent_def withoutSecondCalls_def)
  have w: "workspaceFolder (withoutSecondCalls env) = workspaceFolder env"
    by (simp add: withoutSecondCalls_def)
  have p: "provider (withoutSecondCalls env) = provider env"
    and k: "backend (withoutSecondCalls env) = backend env"
    by (simp_all add: withoutSecondCalls_def)
  have r: "sendRequest (withoutSecondCalls env) q = sendRequest env q" for q
    unfolding sendRequest_def p k ..
  have v: "saveResult (withoutSecondCalls env) u x = saveResult env u x" for x
    by (simp add: saveResult_def withoutSecondCalls_def)
  show ?thesis unfolding processItem_def processItem_try_def g w r v ..
qed

lemma runBatch_withoutSecondCalls:
  "isProcessing (processor st) \<Longrightarrow>
   runBatch (withoutSecondCalls env) op m b batches i st = runBatch env op m b batches i st"
proof -
  assume act: "isProcessing (processor st)"
  have d: "during (withoutSecondCalls env) (Suc i) =
           filter (\<lambda>c. c \<noteq> CallProcess) (during env (Suc i))"
    by (simp add: withoutSecondCalls_def)
  have c: "completionOrder (withoutSecondCalls env) batch = completionOrder env batch" for batch
    by (simp add: completionOrder_def withoutSecondCalls_def)
  show ?thesis
    unfolding runBatch_def processItem_withoutSecondCalls d c externalCalls_filter [OF act] ..
qed

lemma batchLoop_withoutSecondCalls:
  "isProcessing (processor st) \<Longrightarrow>
   batchLoop (withoutSecondCalls env) op m b batches i st = batchLoop env op m b batches i st"
proof (induction env op m b batches i st rule: batchLoop.induct)
  case (1 env op m b batches i st)
  show ?case
  proof (cases "i < length batches \<and> \<not> cancellationRequested (processor st)")
    case True
    have act: "isProcessing (processor (runBatch env op m b batches i st))"
      unfolding runBatch_processor using "1.prems" by (rule externalCalls_isProcessing)
    have "batchLoop (withoutSecondCalls env) op m b batches i st =
          batchLoop (withoutSecondCalls env) op m b batches (Suc i)
            (runBatch (withoutSecondCalls env) op m b batches i st)"
      using True by (subst batchLoop.simps) simp
    also have "\<dots> = batchLoop (withoutSecondCalls env) op m b batches (Suc i)
                      (runBatch env op m b batches i st)"
      by (simp only: runBatch_withoutSecondCalls [OF "1.prems"])
    also have "\<dots> = batchLoop env op m b batches (Suc i) (runBatch env op m b batches i st)"
      using "1.IH" True act by blast
    also have "\<dots> = batchLoop env op m b batches i st"
      using True by (subst (2) batchLoop.simps) simp
    finally show ?thesis .
  next
    case False
    then show ?thesis
      by (subst batchLoop.simps, subst (2) batchLoop.simps) auto
  qed
qed

lemma process_try_withoutSecondCalls:
  assumes "isProcessing this"
  shows "process_try (withoutSecondCalls env) uris op b this = process_try env uris op b this"
proof -
  have d: "during (withoutSecondCalls env) k = filter (\<lambda>c. c \<noteq> CallProcess) (during env k)" for k
    by (simp add: withoutSecondCalls_def)
  have sel: "selectModel (withoutSecondCalls env) = selectModel env"
    by (simp add: selectModel_def withoutSecondCalls_def Let_def)
  have sm: "summary (withoutSecondCalls env) st = summary env st" for st
    by (simp add: summary_def withoutSecondCalls_def)
  have sr: "showResultsError (withoutSecondCalls env) = showResultsError env"
    by (simp add: withoutSecondCalls_def)
  have act0: "isProcessing (externalCalls (during env 0) this)"
    using assms by (rule externalCalls_isProcessing)
  have loop: "batchLoop (withoutSecondCalls env) op m b batches 0
                \<lparr>processor = externalCalls (during env 0) this, effects = [], resultsAcc = [],
                 totalTokensAcc = 0, processedCount = 0\<rparr> =
              batchLoop env op m b batches 0
                \<lparr>processor = externalCalls (during env 0) this, effects = [], resultsAcc = [],
                 totalTokensAcc = 0, processedCount = 0\<rparr>" for m batches
    by (rule batchLoop_withoutSecondCalls) (simp add: act0)
  have rep: "externalCalls (filter (\<lambda>c. c \<noteq> CallProcess) (during env k))
               (processor (batchLoop env op m b batches 0
                 \<lparr>processor = externalCalls (during env 0) this, effects = [], resultsAcc = [],
                  totalTokensAcc = 0, processedCount = 0\<rparr>)) =
             externalCalls (during env k)
               (processor (batchLoop env op m b batches 0
                 \<lparr>processor = externalCalls (during env 0) this, effects = [], resultsAcc = [],
                  totalTokensAcc = 0, processedCount = 0\<rparr>))" for m batches k
    by (rule externalCalls_filter, rule batchLoop_isProcessing) (simp add: act0)
  show ?thesis
    by (simp only: process_try_def Let_def d sel sm sr externalCalls_filter [OF assms] loop rep)
qed

lemma process_withoutSecondCalls:
  "process (withoutSecondCalls env) uris op b this = process env uris op b this"
proof (cases "isProcessing this")
  case True
  then show ?thesis by (simp add: process_def claim_active)
next
  case False
  have "isProcessing \<lparr>isProcessing = True,
          cancellationToken = Some \<lparr>isCancellationRequested = False\<rparr>\<rparr>" by simp
  from process_try_withoutSecondCalls [OF this] show ?thesis
    using False by (simp add: process_def claim_idle)
qed

lemma processItem_reads:
  "ReadTarget u \<in> set (snd (processItem env t op m)) \<longleftrightarrow> u = t"
  by (auto simp: processItem_def processItem_try_def saveResult_def Let_def
           split: prod.split sum.split option.split)

lemma runBatch_reads:
  assumes "i < length batches"
  shows "{u. ReadTarget u \<in> set (effects (runBatch env op m b batches i st))} =
         {u. ReadTarget u \<in> set (effects st)} \<union> set (batches ! i)"
proof -
  define batch where "batch = batches ! i"
  have "{u. ReadTarget u \<in> set (concat (map (\<lambda>k. snd (map (\<lambda>t. processItem env t op m) batch ! k))
            (completionOrder env batch)))} = {batch ! k |k. k < length batch}"
    by (auto simp: set_completionOrder processItem_reads)
  also have "\<dots> = set batch" by (simp add: set_conv_nth)
  finally show ?thesis
    by (auto simp: runBatch_def Let_def batch_def [symmetric])
qed

lemma batchLoop_reads:
  assumes "isProcessing (processor st)"
    and "cancellationToken (processor st) = Some t"
    and "isCancellationRequested t = (\<exists>j\<le>i. CallCancel \<in> set (during env j))"
    and "\<forall>j<i. CallCancel \<notin> set (during env j)"
    and "i \<le> length batches"
  shows "{u. ReadTarget u \<in> set (effects (batchLoop env op m b batches i st))} =
           {u. ReadTarget u \<in> set (effects st)} \<union>
           set (concat (take (dispatched env (length batches) - i) (drop i batches)))"
  using assms
proof (induction "length batches - i" arbitrary: i st t rule: less_induct)
  case less
  define D where "D = dispatched env (length batches)"
  have cr: "cancellationRequested (processor st) = (\<exists>j\<le>i. CallCancel \<in> set (during env j))"
    using less.prems(2,3) by (simp add: cancellationRequested_def)
  show ?case
  proof (cases "i < length batches")
    case False
    then have "i = length batches" using less.prems(5) by simp
    moreover have "D \<le> length batches" unfolding D_def by (rule dispatched_le)
    ultimately show ?thesis using False
      by (subst batchLoop.simps) (simp add: D_def [symmetric])
  next
    case True
    show ?thesis
    proof (cases "cancellationRequested (processor st)")
      case c: True
      then have "CallCancel \<in> set (during env i)"
        using cr less.prems(4) by (metis le_neq_implies_less)
      then have "D = i" unfolding D_def using less.prems(4) True by (intro dispatched_stop)
      then show ?thesis using True c
        by (subst batchLoop.simps) (simp add: D_def [symmetric])
    next
      case c: False
      then have clean: "\<forall>j<Suc i. CallCancel \<notin> set (during env j)"
        using cr by (simp add: less_Suc_eq_le)
      then have Dge: "Suc i \<le> D" unfolding D_def using True by (intro dispatched_ge) simp_all
      define st' where "st' = runBatch env op m b batches i st"
      define t' where "t' = t\<lparr>isCancellationRequested :=
                             isCancellationRequested t \<or> CallCancel \<in> set (during env (Suc i))\<rparr>"
      have p1: "isProcessing (processor st')"
        unfolding st'_def runBatch_processor using less.prems(1) by (rule externalCalls_isProcessing)
      have p2: "cancellationToken (processor st') = Some t'"
        unfolding st'_def t'_def runBatch_processor
        using less.prems(1,2) by (rule externalCalls_token)
      have "isCancellationRequested t = False" using c cr less.prems(3) by simp
      then have p3: "isCancellationRequested t' = (\<exists>j\<le>Suc i. CallCancel \<in> set (during env j))"
        using clean unfolding t'_def by (auto simp: le_Suc_eq less_Suc_eq_le)
      have p5: "Suc i \<le> length batches" using True by simp
      have dec: "length batches - Suc i < length batches - i" using True by simp
      have "batchLoop env op m b batches i st = batchLoop env op m b batches (Suc i) st'"
        using True c by (subst batchLoop.simps) (simp add: st'_def)
      moreover have "{u. ReadTarget u \<in> set (effects (batchLoop env op m b batches (Suc i) st'))} =
           {u. ReadTarget u \<in> set (effects st')} \<union>
           set (concat (take (D - Suc i) (drop (Suc i) batches)))"
        unfolding D_def using less.hyps [OF dec p1 p2 p3 clean p5] .
      moreover have "{u. ReadTarget u \<in> set (effects st')} =
           {u. ReadTarget u \<in> set (effects st)} \<union> set (batches ! i)"
        unfolding st'_def using True by (rule runBatch_reads)
      moreover have "take (D - i) (drop i batches) =
                     batches ! i # take (D - Suc i) (drop (Suc i) batches)"
      proof -
        have "D - i = Suc (D - Suc i)" using Dge by simp
        moreover have "drop i batches = batches ! i # drop (Suc i) batches"
          using True by (simp add: Cons_nth_drop_Suc)
        ultimately show ?thesis by simp
      qed
      ultimately show ?thesis by (simp add: D_def [symmetric] Un_assoc)
    qed
  qed
qed

lemma dispatched_iff:
  assumes "j < n"
  shows "j < dispatched env n \<longleftrightarrow> (\<forall>k\<le>j. CallCancel \<notin> set (during env k))"
proof
  assume "\<forall>k\<le>j. CallCancel \<notin> set (during env k)"
  then have "\<forall>k<Suc j. CallCancel \<notin> set (during env k)" by (simp add: less_Suc_eq_le)
  then have "Suc j \<le> dispatched env n" using assms by (intro dispatched_ge) simp_all
  then show "j < dispatched env n" by simp
next
  assume lt: "j < dispatched env n"
  show "\<forall>k\<le>j. CallCancel \<notin> set (during env k)"
  proof (rule ccontr)
    assume "\<not> (\<forall>k\<le>j. CallCancel \<notin> set (during env k))"
    then obtain k where k: "k \<le> j" "CallCancel \<in> set (during env k)" by blast
    define k0 where "k0 = (LEAST k. CallCancel \<in> set (during env k))"
    have in0: "CallCancel \<in> set (during env k0)" unfolding k0_def using k(2) by (rule LeastI)
    have le0: "k0 \<le> k" unfolding k0_def using k(2) by (rule Least_le)
    have "\<forall>i<k0. CallCancel \<notin> set (during env i)"
      unfolding k0_def using not_less_Least by blast
    moreover have "k0 < n" using le0 k(1) assms by simp
    ultimately have "dispatched env n = k0" using in0 by (intro dispatched_stop)
    then show False using lt le0 k(1) by simp
  qed
qed

section \<open>Runs of \<open>process\<close>\<close>

lemma createBatches_loop_concat:
  assumes "createBatches_loop items b i acc = Some bs"
  shows "concat acc = take i items \<longrightarrow> concat bs = items"
proof (rule createBatches_loop.raw_induct
         [where P = "\<lambda>items b i acc bs. concat acc = take i items \<longrightarrow> concat bs = items",
          OF _ assms])
  fix loop :: "'a list \<Rightarrow> nat \<Rightarrow> nat \<Rightarrow> 'a list list \<Rightarrow> 'a list list option"
  fix items b i acc bs
  assume IH: "\<And>items b i acc bs. loop items b i acc = Some bs \<Longrightarrow>
                concat acc = take i items \<longrightarrow> concat bs = items"
    and eq: "(if i < length items
              then loop items b (i + b) (acc @ [slice items i (i + b)])
              else Some acc) = Some bs"
  show "concat acc = take i items \<longrightarrow> concat bs = items"
  proof (cases "i < length items")
    case True
    then have "loop items b (i + b) (acc @ [slice items i (i + b)]) = Some bs"
      using eq by simp
    then have "concat (acc @ [slice items i (i + b)]) = take (i + b) items \<longrightarrow> concat bs = items"
      by (rule IH)
    moreover have "take i items @ take b (drop i items) = take (i + b) items"
      by (simp add: take_add)
    ultimately show ?thesis by (simp add: slice_def)
  next
    case False
    then show ?thesis using eq by auto
  qed
qed

lemma createBatches_concat: "createBatches uris b = Some batches \<Longrightarrow> concat batches = uris"
  using createBatches_loop_concat [of uris b 0 "[]" batches] by (simp add: createBatches_def)

lemma process_run:
  assumes "\<not> isProcessing this" "selectModel env = Some m" "m \<noteq> []"
    and "createBatches uris b = Some batches"
  shows "\<exists>st. process env uris op b this =
            ((case showResultsError env of None \<Rightarrow> Returned (summary env st) | Some e \<Rightarrow> Threw e),
             \<lparr>isProcessing = False, cancellationToken = None\<rparr>,
             effects st @ [ShowResults, Released])
          \<and> Released \<notin> set (effects st)
          \<and> map Fulfilled (resultsAcc st) =
              map (\<lambda>u. fst (processItem env u op m))
                (concat (take (dispatched env (length batches)) batches))
          \<and> {u. ReadTarget u \<in> set (effects st)} =
              set (concat (take (dispatched env (length batches)) batches))"
proof -
  define claimed where "claimed = \<lparr>isProcessing = True,
      cancellationToken = Some \<lparr>isCancellationRequested = False\<rparr>\<rparr>"
  define init where "init = \<lparr>processor = externalCalls (during env 0) claimed, effects = [],
      resultsAcc = [], totalTokensAcc = 0, processedCount = 0\<rparr>"
  define st where "st = batchLoop env op m b batches 0 init"
  have a1: "isProcessing (processor init)"
    unfolding init_def by (simp add: externalCalls_isProcessing claimed_def)
  have a2: "cancellationToken (processor init) =
      Some \<lparr>isCancellationRequested = CallCancel \<in> set (during env 0)\<rparr>"
    using externalCalls_token [of claimed "\<lparr>isCancellationRequested = False\<rparr>" "during env 0"]
    by (simp add: init_def claimed_def)
  have res: "map Fulfilled (resultsAcc st) =
      map Fulfilled (resultsAcc init) @ map (\<lambda>u. fst (processItem env u op m))
        (concat (take (dispatched env (length batches) - 0) (drop 0 batches)))"
    unfolding st_def by (rule batchLoop_results [OF a1 a2]) simp_all
  have rel: "Released \<notin> set (effects st)"
    unfolding st_def by (rule batchLoop_no_Released) (simp add: init_def)
  have rd: "{u. ReadTarget u \<in> set (effects st)} =
      {u. ReadTarget u \<in> set (effects init)} \<union>
      set (concat (take (dispatched env (length batches) - 0) (drop 0 batches)))"
    unfolding st_def by (rule batchLoop_reads [OF a1 a2]) simp_all
  have pt: "process_try env uris op b claimed =
      ((case showResultsError env of None \<Rightarrow> Returned (summary env st) | Some e \<Rightarrow> Threw e),
       externalCalls (during env (Suc (length batches))) (processor st),
       effects st @ [ShowResults])"
    unfolding st_def init_def using assms(2,3,4) by (simp add: process_try_def Let_def)
  have "process env uris op b this =
      ((case showResultsError env of None \<Rightarrow> Returned (summary env st) | Some e \<Rightarrow> Threw e),
       \<lparr>isProcessing = False, cancellationToken = None\<rparr>,
       effects st @ [ShowResults, Released])"
    using assms(1) pt
    by (simp add: process_def claim_idle claimed_def [symmetric] split: option.split)
  moreover have "map Fulfilled (resultsAcc st) =
      map (\<lambda>u. fst (processItem env u op m))
        (concat (take (dispatched env (length batches)) batches))"
    using res by (simp add: init_def)
  moreover have "{u. ReadTarget u \<in> set (effects st)} =
      set (concat (take (dispatched env (length batches)) batches))"
    using rd by (simp add: init_def)
  ultimately show ?thesis using rel by blast
qed

lemma process_no_model:
  assumes "\<not> isProcessing this" "selectModel env = None \<or> selectModel env = Some []"
  shows "process env uris op b this =
           (Threw (Error ''No model selected''),
            \<lparr>isProcessing = False, cancellationToken = None\<rparr>, [Released])"
  using assms by (auto simp: process_def claim_idle process_try_def Let_def)

lemma process_empty_model_id:
  assumes "\<not> isProcessing this" "availableModels env = [[]]"
  shows "process env uris op b this =
           (Threw (Error ''No model selected''),
            \<lparr>isProcessing = False, cancellationToken = None\<rparr>, [Released])"
proof -
  have "selectModel env = Some []" using assms(2) by (simp add: selectModel_def)
  then show ?thesis using process_no_model [OF assms(1)] by blast
qed

lemma process_active:
  assumes "isProcessing this"
  shows "process env uris op b this =
           (Threw (Error ''Another batch operation is already in progress''), this, [])"
  using assms by (simp add: process_def claim_active)

lemma process_diverged:
  assumes "\<not> isProcessing this" "selectModel env = Some m" "m \<noteq> []"
    and "createBatches uris b = None"
  shows "fst (process env uris op b this) = Diverged"
  using assms by (simp add: process_def claim_idle process_try_def Let_def)

lemma processItem_uri:
  "fst (processItem env u op m) = Fulfilled v \<Longrightarrow> uri v = u"
  by (auto simp: processItem_def processItem_try_def Let_def split: prod.splits sum.splits)

lemma map_uri_outcomes:
  "map Fulfilled rs = map (\<lambda>u. fst (processItem env u op m)) us \<Longrightarrow> map uri rs = us"
proof (induction rs arbitrary: us)
  case Nil
  then show ?case by simp
next
  case (Cons r rs)
  then obtain u us' where us: "us = u # us'" by (cases us) auto
  with Cons.prems have "fst (processItem env u op m) = Fulfilled r"
    and "map Fulfilled rs = map (\<lambda>u. fst (processItem env u op m)) us'" by simp_all
  then show ?case using Cons.IH us processItem_uri by fastforce
qed

lemma Fulfilled_map_inject: "map Fulfilled xs = map Fulfilled ys \<Longrightarrow> xs = ys"
  by (simp add: inj_map_eq_map inj_on_def)

lemma dispatched_all:
  "\<forall>k. CallCancel \<notin> set (during env k) \<Longrightarrow> dispatched env n = n"
  using dispatched_ge [of n env n] dispatched_le [of env n] by simp

lemma processItem_latency:
  "processItem (env\<lparr>latency := l\<rparr>) u op m = processItem env u op m"
proof -
  have g: "getFileContent (env\<lparr>latency := l\<rparr>) u = getFileContent env u"
    by (simp add: getFileContent_def)
  have w: "workspaceFolder (env\<lparr>latency := l\<rparr>) = workspaceFolder env" by simp
  have p: "provider (env\<lparr>latency := l\<rparr>) = provider env"
    and k: "backend (env\<lparr>latency := l\<rparr>) = backend env" by simp_all
  have r: "sendRequest (env\<lparr>latency := l\<rparr>) q = sendRequest env q" for q
    unfolding sendRequest_def p k ..
  have v: "saveResult (env\<lparr>latency := l\<rparr>) u x = saveResult env u x" for x
    by (simp add: saveResult_def)
  show ?thesis unfolding processItem_def processItem_try_def g w r v ..
qed

lemma take_length_take: "take (length (take k xs)) xs = take k xs"
  by (cases "k \<le> length xs") (simp_all add: min_def)

lemma take_batches_prefix:
  assumes "1 \<le> b" "createBatches uris b = Some batches"
  shows "concat (take k batches) = take (min k (length batches) * b) uris"
proof -
  have bs: "batches = map (batchAt uris b) [0..<ceilDiv (length uris) b]"
    using createBatches_closed [OF assms(1), of uris] assms(2) by simp
  have len: "length batches = ceilDiv (length uris) b" by (simp add: bs)
  have "take k [0..<ceilDiv (length uris) b] = [0..<min k (ceilDiv (length uris) b)]"
    by (cases "k \<le> ceilDiv (length uris) b") (simp_all add: take_upt min_def)
  then have "take k batches = map (batchAt uris b) [0..<min k (length batches)]"
    unfolding len unfolding bs by (simp only: take_map)
  then show ?thesis by (simp only: concat_batchAt)
qed

section \<open>Mutual exclusion and release\<close>

text \<open>
  C1. On an engine with a run in flight, a call of \<open>process\<close> throws the error "Another
  batch operation is already in progress" at once: the engine (flag and cancellation
  handle) is left as it was and the call has no effect. The part of such a call that
  runs while the first run is suspended leaves the engine unchanged, and a run ends the
  same way, with the same summary, engine and effects, as the run during which no such
  call is made.
\<close>

theorem second_call_is_rejected:
  assumes "isProcessing this"
  shows "process env uris op b this =
           (Threw (Error ''Another batch operation is already in progress''), this, [])
         \<and> externalCall CallProcess this = this
         \<and> (\<forall>env' uris' op' b' first.
               process env' uris' op' b' first =
               process (withoutSecondCalls env') uris' op' b' first)"
  using assms process_active [OF assms] process_withoutSecondCalls
  by (simp add: claim_active)

theorem second_call_is_rejected_witness:
  "isProcessing activeEngine
   \<and> process cancelledEnv exampleTargets examplePrompt 2 activeEngine =
       (Threw (Error ''Another batch operation is already in progress''), activeEngine, [])
   \<and> externalCall CallProcess activeEngine = activeEngine
   \<and> process cancelledEnv exampleTargets examplePrompt 2 idleEngine =
       process (withoutSecondCalls cancelledEnv) exampleTargets examplePrompt 2 idleEngine"
proof -
  have h: "isProcessing activeEngine" by (simp add: activeEngine_def)
  show ?thesis
    using h second_call_is_rejected [OF h, of cancelledEnv exampleTargets examplePrompt 2]
    by blast
qed

text \<open>
  C2. A call of \<open>process\<close> on an idle engine claims it, and whenever the call ends, by
  returning the summary or by throwing (no model, a failure of the final report; after
  item failures or a cancellation as well), the \<open>finally\<close> block has run exactly once, as
  the last effect of the call: the flag is false and the cancellation handle is gone, so
  \<open>isCurrentlyProcessing\<close> answers false. With a batch size \<open>b \<ge> 1\<close> the call does end.
\<close>

theorem process_releases_engine:
  assumes "\<not> isProcessing this"
  shows "(1 \<le> b \<longrightarrow> fst (process env uris op b this) \<noteq> Diverged)
         \<and> (fst (process env uris op b this) \<noteq> Diverged \<longrightarrow>
              (\<exists>outcome evs.
                  process env uris op b this =
                    (outcome, \<lparr>isProcessing = False, cancellationToken = None\<rparr>, evs @ [Released])
                  \<and> Released \<notin> set evs)
              \<and> \<not> isCurrentlyProcessing (fst (snd (process env uris op b this))))"
proof (cases "selectModel env = None \<or> selectModel env = Some []")
  case True
  show ?thesis
    unfolding process_no_model [OF assms True] by (simp add: isCurrentlyProcessing_def)
next
  case False
  then obtain m where sel: "selectModel env = Some m" and mne: "m \<noteq> []" by auto
  show ?thesis
  proof (cases "createBatches uris b")
    case None
    have "\<not> 1 \<le> b" using None createBatches_closed [of b uris] by auto
    then show ?thesis using process_diverged [OF assms sel mne None] by simp
  next
    case (Some batches)
    from process_run [OF assms sel mne Some, of op]
    obtain st where run: "process env uris op b this =
          ((case showResultsError env of None \<Rightarrow> Returned (summary env st) | Some e \<Rightarrow> Threw e),
           \<lparr>isProcessing = False, cancellationToken = None\<rparr>, effects st @ [ShowResults, Released])"
      and rel: "Released \<notin> set (effects st)"
      by blast
    have "effects st @ [ShowResults, Released] = (effects st @ [ShowResults]) @ [Released]"
      by simp
    moreover have "Released \<notin> set (effects st @ [ShowResults])" using rel by simp
    ultimately have "\<exists>outcome evs.
        process env uris op b this =
          (outcome, \<lparr>isProcessing = False, cancellationToken = None\<rparr>, evs @ [Released])
        \<and> Released \<notin> set evs"
      using run by metis
    moreover have "fst (process env uris op b this) \<noteq> Diverged"
      unfolding run by (simp split: option.split)
    moreover have "\<not> isCurrentlyProcessing (fst (snd (process env uris op b this)))"
      unfolding run by (simp add: isCurrentlyProcessing_def)
    ultimately show ?thesis by blast
  qed
qed

theorem process_releases_engine_witness:
  "\<not> isProcessing idleEngine \<and> (1::nat) \<le> 2
   \<and> fst (process cancelledEnv exampleTargets examplePrompt 2 idleEngine) \<noteq> Diverged
   \<and> (\<exists>outcome evs.
         process cancelledEnv exampleTargets examplePrompt 2 idleEngine =
           (outcome, \<lparr>isProcessing = False, cancellationToken = None\<rparr>, evs @ [Released])
         \<and> Released \<notin> set evs)
   \<and> \<not> isCurrentlyProcessing
         (fst (snd (process cancelledEnv exampleTargets examplePrompt 2 idleEngine)))"
proof -
  have h: "\<not> isProcessing idleEngine" by (simp add: idleEngine_def)
  show ?thesis
    using h process_releases_engine [OF h, of 2 cancelledEnv exampleTargets examplePrompt]
    by simp
qed

section \<open>Order, failures and cancellation\<close>

text \<open>
  C4. A run on an idle engine with a model (not the empty string), a batch size \<open>b \<ge> 1\<close> and a final report
  that does not fail returns a summary whose results refer, in this order, to a prefix of
  the targets: the targets of the batches dispatched before a cancellation was seen, and
  all the targets, each at its own index, when no cancellation is requested. The results
  are the same whatever the latencies of the items, that is, in whatever order the
  promises of a batch settle.
\<close>

theorem results_in_target_order:
  assumes "\<not> isProcessing this" "selectModel env = Some m" "1 \<le> b" "showResultsError env = None"
    and "m \<noteq> []"
  shows "\<exists>r left evs.
           process env uris op b this = (Returned r, left, evs)
           \<and> map uri (results r) = take (length (results r)) uris
           \<and> (\<exists>k. map uri (results r) = take (k * b) uris)
           \<and> ((\<forall>k. CallCancel \<notin> set (during env k)) \<longrightarrow>
                 map uri (results r) = uris \<and> (\<forall>i < length uris. uri (results r ! i) = uris ! i))
           \<and> (\<forall>l. \<exists>r' left' evs'.
                 process (env\<lparr>latency := l\<rparr>) uris op b this = (Returned r', left', evs')
                 \<and> results r' = results r)"
proof -
  obtain batches where cb: "createBatches uris b = Some batches"
    using createBatches_closed [OF assms(3)] by blast
  define D where "D = dispatched env (length batches)"
  from process_run [OF assms(1,2,5) cb, of op]
  obtain st where run: "process env uris op b this =
        (Returned (summary env st), \<lparr>isProcessing = False, cancellationToken = None\<rparr>,
         effects st @ [ShowResults, Released])"
    and res: "map Fulfilled (resultsAcc st) =
        map (\<lambda>u. fst (processItem env u op m)) (concat (take D batches))"
    unfolding D_def using assms(4) by auto
  have uris_res: "map uri (resultsAcc st) = concat (take D batches)"
    using res by (rule map_uri_outcomes)
  define K where "K = min D (length batches) * b"
  have pre: "map uri (resultsAcc st) = take K uris"
    unfolding K_def uris_res using take_batches_prefix [OF assms(3) cb] .
  have r1: "map uri (resultsAcc st) = take (length (resultsAcc st)) uris"
  proof -
    have "length (map uri (resultsAcc st)) = length (take K uris)" by (simp only: pre)
    then have "length (resultsAcc st) = length (take K uris)" by (simp only: length_map)
    then show ?thesis unfolding pre by (simp only: take_length_take)
  qed
  have r2: "\<exists>k. map uri (resultsAcc st) = take (k * b) uris"
    using pre unfolding K_def by (rule exI)
  have r3: "(\<forall>k. CallCancel \<notin> set (during env k)) \<longrightarrow>
            map uri (resultsAcc st) = uris \<and> (\<forall>i < length uris. uri (resultsAcc st ! i) = uris ! i)"
  proof
    assume clean: "\<forall>k. CallCancel \<notin> set (during env k)"
    have "D = length batches" unfolding D_def using clean by (rule dispatched_all)
    then have eq: "map uri (resultsAcc st) = uris"
      unfolding uris_res using createBatches_concat [OF cb] by simp
    have "uri (resultsAcc st ! i) = uris ! i" if "i < length uris" for i
    proof -
      have "i < length (resultsAcc st)" using that eq by (metis length_map)
      then have "map uri (resultsAcc st) ! i = uri (resultsAcc st ! i)" by (rule nth_map)
      then show ?thesis unfolding eq by simp
    qed
    with eq show "map uri (resultsAcc st) = uris \<and>
                  (\<forall>i < length uris. uri (resultsAcc st ! i) = uris ! i)" by blast
  qed
  have r4: "\<exists>r' left' evs'.
        process (env\<lparr>latency := l\<rparr>) uris op b this = (Returned r', left', evs')
        \<and> results r' = resultsAcc st" for l
  proof -
    have "selectModel (env\<lparr>latency := l\<rparr>) = selectModel env"
      by (simp add: selectModel_def Let_def)
    then have sel: "selectModel (env\<lparr>latency := l\<rparr>) = Some m"
      using assms(2) by simp
    have D': "dispatched (env\<lparr>latency := l\<rparr>) (length batches) = D"
      by (simp add: D_def dispatched_def)
    from process_run [OF assms(1) sel assms(5) cb, of op]
    obtain st' where run': "process (env\<lparr>latency := l\<rparr>) uris op b this =
          (Returned (summary (env\<lparr>latency := l\<rparr>) st'),
           \<lparr>isProcessing = False, cancellationToken = None\<rparr>,
           effects st' @ [ShowResults, Released])"
      and res': "map Fulfilled (resultsAcc st') =
          map (\<lambda>u. fst (processItem (env\<lparr>latency := l\<rparr>) u op m)) (concat (take D batches))"
      unfolding D' using assms(4) by auto
    have "map Fulfilled (resultsAcc st') = map Fulfilled (resultsAcc st)"
      using res res' by (simp add: processItem_latency)
    then have "resultsAcc st' = resultsAcc st" by (rule Fulfilled_map_inject)
    then show ?thesis using run' by (simp add: summary_def)
  qed
  define r where "r = summary env st"
  have rr: "results r = resultsAcc st" by (simp add: r_def summary_def)
  have "process env uris op b this =
          (Returned r, \<lparr>isProcessing = False, cancellationToken = None\<rparr>,
           effects st @ [ShowResults, Released])"
    unfolding r_def by (rule run)
  moreover note r1 [folded rr] r2 [folded rr] r3 [folded rr] r4 [folded rr]
  ultimately show ?thesis by blast
qed

theorem results_in_target_order_witness:
  "\<not> isProcessing idleEngine \<and> selectModel exampleEnv = Some ''m1'' \<and> (1::nat) \<le> 2
   \<and> showResultsError exampleEnv = None \<and> ''m1'' \<noteq> []
   \<and> (\<forall>k. CallCancel \<notin> set (during exampleEnv k))
   \<and> (\<exists>r left evs.
         process exampleEnv exampleTargets examplePrompt 2 idleEngine = (Returned r, left, evs)
         \<and> map uri (results r) = exampleTargets)"
proof -
  have h1: "\<not> isProcessing idleEngine" by (simp add: idleEngine_def)
  have h2: "selectModel exampleEnv = Some ''m1''" by (simp add: selectModel_def exampleEnv_def)
  have h3: "(1::nat) \<le> 2" by simp
  have h4: "showResultsError exampleEnv = None" by (simp add: exampleEnv_def)
  have h5: "\<forall>k. CallCancel \<notin> set (during exampleEnv k)" by (simp add: exampleEnv_def)
  have h6: "''m1'' \<noteq> []" by simp
  from results_in_target_order [OF h1 h2 h3 h4 h6, of exampleTargets examplePrompt] h5
  have "\<exists>r left evs.
         process exampleEnv exampleTargets examplePrompt 2 idleEngine = (Returned r, left, evs)
         \<and> map uri (results r) = exampleTargets"
    by blast
  then show ?thesis using h1 h2 h3 h4 h5 h6 by blast
qed



text \<open>
  C6. When no model can be resolved (none is available, or the user picks none of
  several), \<open>process\<close> on an idle engine throws "No model selected" before anything is
  dispatched: its only effect is the release of the engine, so no target is read, no
  request is sent and no result document is written, and the engine is left idle.
\<close>

theorem no_model_fails_before_dispatch:
  assumes "\<not> isProcessing this"
    and "availableModels env = []
         \<or> (1 < length (availableModels env) \<and> showQuickPick env (availableModels env) = None)"
  shows "selectModel env = None
         \<and> process env uris op b this =
             (Threw (Error ''No model selected''),
              \<lparr>isProcessing = False, cancellationToken = None\<rparr>, [Released])"
proof -
  have none: "selectModel env = None"
    using assms(2) by (auto simp: selectModel_def Let_def)
  then show ?thesis using process_no_model [OF assms(1) disjI1 [OF none]] by simp
qed

theorem no_model_fails_before_dispatch_witness:
  "\<not> isProcessing idleEngine
   \<and> availableModels (exampleEnv\<lparr>availableModels := []\<rparr>) = []
   \<and> process (exampleEnv\<lparr>availableModels := []\<rparr>) exampleTargets examplePrompt 2 idleEngine =
       (Threw (Error ''No model selected''), idleEngine, [Released])"
proof -
  have h: "\<not> isProcessing idleEngine" by (simp add: idleEngine_def)
  have m: "availableModels (exampleEnv\<lparr>availableModels := []\<rparr>) = []" by simp
  show ?thesis
    using h m no_model_fails_before_dispatch [OF h disjI1 [OF m], of exampleTargets examplePrompt 2]
    by (simp add: idleEngine_def)
qed

text \<open>
  C7. A run on an idle engine with a model (not the empty string), \<open>b \<ge> 1\<close> and a report that does not fail
  returns a summary. Batch \<open>j\<close> is dispatched exactly when no cancellation was requested
  at the suspensions up to the one before it starts: a request that arrives while a batch
  is in flight lets that batch finish and stops the next one. The results are the outcomes
  of the items of the dispatched batches, the targets read are the targets of those
  batches and no others, and \<open>totalProcessed\<close> is their number, at most the number of
  targets.
\<close>

theorem cancellation_stops_at_batch_boundary:
  assumes "\<not> isProcessing this" "selectModel env = Some m" "1 \<le> b" "showResultsError env = None"
    and "m \<noteq> []"
  shows "\<exists>r left evs batches.
           process env uris op b this = (Returned r, left, evs)
           \<and> createBatches uris b = Some batches
           \<and> (\<forall>j < length batches.
                 j < dispatched env (length batches) \<longleftrightarrow>
                 (\<forall>k\<le>j. CallCancel \<notin> set (during env k)))
           \<and> map Fulfilled (results r) =
               map (\<lambda>u. fst (processItem env u op m))
                 (concat (take (dispatched env (length batches)) batches))
           \<and> {u. ReadTarget u \<in> set evs} =
               set (concat (take (dispatched env (length batches)) batches))
           \<and> totalProcessed r = length (concat (take (dispatched env (length batches)) batches))
           \<and> totalProcessed r \<le> length uris"
proof -
  obtain batches where cb: "createBatches uris b = Some batches"
    using createBatches_closed [OF assms(3)] by blast
  define D where "D = dispatched env (length batches)"
  from process_run [OF assms(1,2,5) cb, of op]
  obtain st where run: "process env uris op b this =
        (Returned (summary env st), \<lparr>isProcessing = False, cancellationToken = None\<rparr>,
         effects st @ [ShowResults, Released])"
    and res: "map Fulfilled (resultsAcc st) =
        map (\<lambda>u. fst (processItem env u op m)) (concat (take D batches))"
    and rd: "{u. ReadTarget u \<in> set (effects st)} = set (concat (take D batches))"
    unfolding D_def using assms(4) by auto
  define r where "r = summary env st"
  have p1: "process env uris op b this =
        (Returned r, \<lparr>isProcessing = False, cancellationToken = None\<rparr>,
         effects st @ [ShowResults, Released])"
    unfolding r_def by (rule run)
  have p2: "\<forall>j < length batches. j < D \<longleftrightarrow> (\<forall>k\<le>j. CallCancel \<notin> set (during env k))"
    unfolding D_def using dispatched_iff by blast
  have p3: "map Fulfilled (results r) =
        map (\<lambda>u. fst (processItem env u op m)) (concat (take D batches))"
    using res by (simp add: r_def summary_def)
  have p4: "{u. ReadTarget u \<in> set (effects st @ [ShowResults, Released])} =
        set (concat (take D batches))"
    using rd by simp
  have len: "length (resultsAcc st) = length (concat (take D batches))"
    using res by (metis length_map)
  then have p5: "totalProcessed r = length (concat (take D batches))"
    by (simp add: r_def summary_def)
  have "concat (take D batches) @ concat (drop D batches) = uris"
    using createBatches_concat [OF cb] by (metis append_take_drop_id concat_append)
  then have "length (concat (take D batches)) \<le> length uris"
    by (metis length_append le_add1)
  then have p6: "totalProcessed r \<le> length uris" using p5 by simp
  show ?thesis
    using p1 cb p2 p3 p4 p5 p6 unfolding D_def by blast
qed

theorem cancellation_stops_at_batch_boundary_witness:
  "\<not> isProcessing idleEngine \<and> selectModel cancelledEnv = Some ''m1'' \<and> (1::nat) \<le> 2
   \<and> showResultsError cancelledEnv = None \<and> ''m1'' \<noteq> []
   \<and> CallCancel \<in> set (during cancelledEnv 2)
   \<and> (\<exists>r left evs.
         process cancelledEnv exampleTargets examplePrompt 2 idleEngine = (Returned r, left, evs)
         \<and> totalProcessed r = 4
         \<and> {u. ReadTarget u \<in> set evs} =
             {Uri ''/w/a.txt'', Uri ''/w/b.txt'', Uri ''/w/c.txt'', Uri ''/w/d.txt''})"
proof -
  have h1: "\<not> isProcessing idleEngine" by (simp add: idleEngine_def)
  have h2: "selectModel cancelledEnv = Some ''m1''"
    by (simp add: selectModel_def cancelledEnv_def exampleEnv_def)
  have h3: "(1::nat) \<le> 2" by simp
  have h4: "showResultsError cancelledEnv = None" by (simp add: cancelledEnv_def exampleEnv_def)
  have h5: "CallCancel \<in> set (during cancelledEnv 2)" by (simp add: cancelledEnv_def)
  have cb: "createBatches exampleTargets 2 =
     Some [[Uri ''/w/a.txt'', Uri ''/w/b.txt''], [Uri ''/w/c.txt'', Uri ''/w/d.txt''],
           [Uri ''/w/e.txt'']]"
    by (simp add: createBatches_def createBatches_loop.simps slice_def exampleTargets_def)
  have h6: "''m1'' \<noteq> []" by simp
  from cancellation_stops_at_batch_boundary [OF h1 h2 h3 h4 h6, of exampleTargets examplePrompt]
  obtain r left evs batches where
    run: "process cancelledEnv exampleTargets examplePrompt 2 idleEngine = (Returned r, left, evs)"
    and b: "createBatches exampleTargets 2 = Some batches"
    and rd: "{u. ReadTarget u \<in> set evs} =
               set (concat (take (dispatched cancelledEnv (length batches)) batches))"
    and tp: "totalProcessed r =
               length (concat (take (dispatched cancelledEnv (length batches)) batches))"
    by blast
  have bs: "batches = [[Uri ''/w/a.txt'', Uri ''/w/b.txt''], [Uri ''/w/c.txt'', Uri ''/w/d.txt''],
           [Uri ''/w/e.txt'']]"
    using b cb by simp
  have d: "dispatched cancelledEnv (length batches) = 2"
    unfolding bs by (simp add: dispatched_def cancelledEnv_def upt_rec)
  have "totalProcessed r = 4" unfolding tp d by (simp add: bs)
  moreover have "{u. ReadTarget u \<in> set evs} =
             {Uri ''/w/a.txt'', Uri ''/w/b.txt'', Uri ''/w/c.txt'', Uri ''/w/d.txt''}"
    unfolding rd d by (auto simp: bs)
  ultimately show ?thesis using run h1 h2 h3 h4 h5 h6 by blast
qed

text \<open>
  C10. The promise of \<open>processItem\<close> is always fulfilled, never rejected: whatever its
  \<open>try\<close> block throws becomes a record with \<open>success = false\<close>. So every element that
  \<open>Promise.allSettled\<close> hands to the recording loop is fulfilled, the branch for a
  rejected promise is not taken, and the outcomes a batch adds to the results are the
  values of the \<open>processItem\<close> calls of its items, in the order of the batch.
\<close>

theorem processItem_never_rejects:
  "(\<exists>v. fst (processItem env u op m) = Fulfilled v)
   \<and> (\<forall>x \<in> set (allSettled (completionOrder env batch)
                    (map fst (map (\<lambda>target. processItem env target op m) batch))).
         \<exists>v. x = Fulfilled v)
   \<and> map Fulfilled (resultsAcc (runBatch env op m b batches i st)) =
       map Fulfilled (resultsAcc st) @ map (\<lambda>target. fst (processItem env target op m)) (batches ! i)"
proof -
  have "allSettled (completionOrder env batch)
          (map fst (map (\<lambda>target. processItem env target op m) batch)) =
        map (\<lambda>target. fst (processItem env target op m)) batch"
    using allSettled_completionOrder [of env batch "\<lambda>target. fst (processItem env target op m)"]
    by (simp add: o_def)
  then show ?thesis
    using processItem_fulfilled runBatch_results by auto
qed

theorem processItem_never_rejects_witness:
  "(\<exists>v. fst (processItem exampleEnv (Uri ''/w/b.txt'') examplePrompt ''m1'') = Fulfilled v)
   \<and> fst (processItem exampleEnv (Uri ''/w/b.txt'') examplePrompt ''m1'') =
     Fulfilled \<lparr>uri = Uri ''/w/b.txt'', success = False, response = None,
                error = Some ''Failed to read /w/b.txt: ENOENT'',
                resultModel = None, tokens = None\<rparr>
   \<and> completionOrder exampleEnv [Uri ''/w/a.txt'', Uri ''/w/b.txt''] = [1, 0]
   \<and> allSettled (completionOrder exampleEnv [Uri ''/w/a.txt'', Uri ''/w/b.txt''])
         (map fst (map (\<lambda>target. processItem exampleEnv target examplePrompt ''m1'')
            [Uri ''/w/a.txt'', Uri ''/w/b.txt''])) =
       [Fulfilled \<lparr>uri = Uri ''/w/a.txt'', success = True,
                   response = Some ''ok: Summarise a.txt'', error = None,
                   resultModel = Some ''m1'', tokens = Some 7\<rparr>,
        Fulfilled \<lparr>uri = Uri ''/w/b.txt'', success = False, response = None,
                   error = Some ''Failed to read /w/b.txt: ENOENT'',
                   resultModel = None, tokens = None\<rparr>]"
proof -
  note inst = processItem_never_rejects
    [of exampleEnv "Uri ''/w/b.txt''" examplePrompt "''m1''" "[Uri ''/w/a.txt'', Uri ''/w/b.txt'']"]
  from inst have ex:
    "\<exists>v. fst (processItem exampleEnv (Uri ''/w/b.txt'') examplePrompt ''m1'') = Fulfilled v"
    by blast
  have item: "fst (processItem exampleEnv (Uri ''/w/b.txt'') examplePrompt ''m1'') =
     Fulfilled \<lparr>uri = Uri ''/w/b.txt'', success = False, response = None,
                error = Some ''Failed to read /w/b.txt: ENOENT'',
                resultModel = None, tokens = None\<rparr>"
    by (simp add: processItem_def processItem_try_def getFileContent_def exampleEnv_def)
  have first: "fst (processItem exampleEnv (Uri ''/w/a.txt'') examplePrompt ''m1'') =
     Fulfilled \<lparr>uri = Uri ''/w/a.txt'', success = True,
                response = Some ''ok: Summarise a.txt'', error = None,
                resultModel = Some ''m1'', tokens = Some 7\<rparr>"
    by (simp add: processItem_def processItem_try_def getFileContent_def sendRequest_def
          saveResult_def buildPrompt_def replaceAll_def promptTemplate_def basename_def
          examplePrompt_def exampleEnv_def)
  have order: "completionOrder exampleEnv [Uri ''/w/a.txt'', Uri ''/w/b.txt''] = [1, 0]"
    by (simp add: completionOrder_def exampleEnv_def upt_rec)
  have "allSettled [1, 0]
         (map fst (map (\<lambda>target. processItem exampleEnv target examplePrompt ''m1'')
            [Uri ''/w/a.txt'', Uri ''/w/b.txt''])) =
       [fst (processItem exampleEnv (Uri ''/w/a.txt'') examplePrompt ''m1''),
        fst (processItem exampleEnv (Uri ''/w/b.txt'') examplePrompt ''m1'')]"
    by (simp add: allSettled_def)
  then have "allSettled (completionOrder exampleEnv [Uri ''/w/a.txt'', Uri ''/w/b.txt''])
         (map fst (map (\<lambda>target. processItem exampleEnv target examplePrompt ''m1'')
            [Uri ''/w/a.txt'', Uri ''/w/b.txt''])) =
       [Fulfilled \<lparr>uri = Uri ''/w/a.txt'', success = True,
                   response = Some ''ok: Summarise a.txt'', error = None,
                   resultModel = Some ''m1'', tokens = Some 7\<rparr>,
        Fulfilled \<lparr>uri = Uri ''/w/b.txt'', success = False, response = None,
                   error = Some ''Failed to read /w/b.txt: ENOENT'',
                   resultModel = None, tokens = None\<rparr>]"
    by (simp only: order item first)
  then show ?thesis using ex item order by blast
qed

section \<open>Prompt templates\<close>

lemma buildPrompt_spec_example:
  "buildPrompt None (Uri ''/x/y/report.txt'') ''hi''
     (PromptOp \<lparr>name = ''p'', content = ''A:{{FILE_NAME}} B:{{FILE_CONTENT}}''\<rparr>) =
   ''A:report.txt B:hi''"
  by (simp add: buildPrompt_def replaceAll_def promptTemplate_def basename_def)

lemma buildPrompt_unknown_placeholder:
  "buildPrompt None (Uri ''/x/y/report.txt'') ''hi''
     (PromptOp \<lparr>name = ''p'', content = ''{{FOO}} {{file_name}}''\<rparr>) =
   ''{{FOO}} {{file_name}}''"
  by (simp add: buildPrompt_def replaceAll_def promptTemplate_def basename_def)

text \<open>
  C8. The claim fails on the code: \<open>buildPrompt\<close> passes the content to
  \<open>String.prototype.replace\<close> as a replacement string, in which \<open>$$\<close>, \<open>$&\<close>, \<open>$`\<close>
  and \<open>$'\<close> are patterns. A content with \<open>$$\<close> is inserted with one dollar sign, and
  for the content \<open>$&\<close> the placeholder is replaced by itself.
\<close>

theorem buildPrompt_interprets_dollar_patterns:
  "buildPrompt None (Uri ''/x/y/report.txt'') ''price: $$5''
     (PromptOp \<lparr>name = ''p'', content = ''B:{{FILE_CONTENT}}''\<rparr>) = ''B:price: $5''
   \<and> buildPrompt None (Uri ''/x/y/report.txt'') ''$&''
     (PromptOp \<lparr>name = ''p'', content = ''B:{{FILE_CONTENT}}''\<rparr>) = ''B:{{FILE_CONTENT}}''"
  by (simp add: buildPrompt_def replaceAll_def promptTemplate_def basename_def)

section \<open>The batch tool\<close>

lemma prompt_lookup_not_found:
  "handleBatchProcessFiles exampleEnv exampleServer
     \<lparr>type = Some ''prompt'', item_name = Some ''deploy'',
      file_patterns = Some [''**/*.txt''], batch_size = None\<rparr> idleEngine =
   (Returned (ErrorResponse (- 32602) ''Prompt not found: deploy''), idleEngine, [])"
  by (simp add: handleBatchProcessFiles_def handleBatchProcessFiles_try_def getPrompt_def
        exampleServer_def)

lemma prompt_no_matching_files:
  "handleBatchProcessFiles exampleEnv exampleServer
     \<lparr>type = Some ''prompt'', item_name = Some ''summarise'',
      file_patterns = Some [''**/*.md''], batch_size = None\<rparr> idleEngine =
   (Returned (ErrorResponse (- 32602) ''No files found matching the specified patterns''),
    idleEngine, [])"
  by (simp add: handleBatchProcessFiles_def handleBatchProcessFiles_try_def getPrompt_def
        processFiles_def exampleServer_def)

text \<open>
  C9. The claim fails on the code for the kind \<open>task\<close>: the handler calls
  \<open>getTasks().find(item_name)\<close> with the name, a string, where \<open>find\<close> takes a function,
  so the lookup throws a \<open>TypeError\<close> and the handler answers with the internal error
  \<open>-32603\<close>, for a task that does not exist (\<open>deploy\<close>) and for one that does
  (\<open>build\<close>), instead of "Task not found" with \<open>-32602\<close>. No run is started.
\<close>

theorem task_lookup_throws_type_error:
  "handleBatchProcessFiles exampleEnv exampleServer
     \<lparr>type = Some ''task'', item_name = Some ''deploy'',
      file_patterns = Some [''**/*.txt''], batch_size = None\<rparr> idleEngine =
   (Returned (ErrorResponse (- 32603)
      (''string '' @ [CHR 0x22] @ ''deploy'' @ [CHR 0x22] @ '' is not a function'')), idleEngine, [])
   \<and> handleBatchProcessFiles exampleEnv exampleServer
     \<lparr>type = Some ''task'', item_name = Some ''build'',
      file_patterns = Some [''**/*.txt''], batch_size = None\<rparr> idleEngine =
   (Returned (ErrorResponse (- 32603)
      (''string '' @ [CHR 0x22] @ ''build'' @ [CHR 0x22] @ '' is not a function'')), idleEngine, [])"
  by (simp add: handleBatchProcessFiles_def handleBatchProcessFiles_try_def exampleServer_def)

end
